theory Spec2Isabelle
  imports Complex_Main "HOL-Library.Monad_Syntax"
begin

section \<open>Monthly BTC/ETH dollar-cost averaging: the computation of main.py\<close>

text \<open>
  The script downloads two monthly price columns, aligns them into a data frame
  \<open>df\<close>, checks that at least 12 rows are left, computes the running all-time high
  of each column and then runs one loop over the rows that buys both assets under
  three weighting strategies and records the three portfolio values.

  The download, the plot and the printing are outside this development: the aligned
  frame \<open>df\<close> is the input, a list of rows \<open>(BTC, ETH)\<close>.

  Numbers: the script computes with 64-bit floats. In the first model every float is
  a \<open>real\<close> and every operation is exact; it carries the statements that do not
  depend on rounding (the structure of the loop, signs, exact zeros). Division by
  zero does not occur for positive prices, which every statement about the
  arithmetic assumes. The statements that do depend on rounding are made about a
  second model of the same lines in binary64 arithmetic.
\<close>

subsection \<open>Running all-time high (lines 29-30)\<close>

text \<open>
  \<open>np.maximum.accumulate(a)\<close>: element \<open>i\<close> of the result is the maximum of
  \<open>a[0..i]\<close>, computed in one pass that carries the maximum so far. The empty array
  gives the empty array.
\<close>

fun accumulate_from :: "'a::linorder \<Rightarrow> 'a list \<Rightarrow> 'a list" where
  "accumulate_from m [] = []"
| "accumulate_from m (x # xs) = max m x # accumulate_from (max m x) xs"

fun maximum_accumulate :: "'a::linorder list \<Rightarrow> 'a list" where
  "maximum_accumulate [] = []"
| "maximum_accumulate (x # xs) = x # accumulate_from x xs"

subsection \<open>Constants (lines 33, 36, 53)\<close>

definition supply_ratio_eth_to_btc :: real where
  "supply_ratio_eth_to_btc = 120000000 / 19700000"

definition monthly_budget :: real where
  "monthly_budget = 500"

text \<open>The literal \<open>1e-12\<close> added to the denominator of the ATH weights.\<close>

definition eps :: real where
  "eps = 1 / 10 ^ 12"

subsection \<open>The weights of one step (lines 51-55, 61-63, 69-70)\<close>

text \<open>\<open>dist = 1 - p / ath\<close>: how far the price is below its running all-time high.\<close>

definition dist :: "real \<Rightarrow> real \<Rightarrow> real" where
  "dist p ath = 1 - p / ath"

definition total_dist :: "real \<Rightarrow> real \<Rightarrow> real \<Rightarrow> real \<Rightarrow> real" where
  "total_dist p_btc btc_ath p_eth eth_ath = dist p_btc btc_ath + dist p_eth eth_ath + eps"

definition w_btc_ath :: "real \<Rightarrow> real \<Rightarrow> real \<Rightarrow> real \<Rightarrow> real" where
  "w_btc_ath p_btc btc_ath p_eth eth_ath =
     dist p_btc btc_ath / total_dist p_btc btc_ath p_eth eth_ath"

definition w_eth_ath :: "real \<Rightarrow> real \<Rightarrow> real \<Rightarrow> real \<Rightarrow> real" where
  "w_eth_ath p_btc btc_ath p_eth eth_ath =
     dist p_eth eth_ath / total_dist p_btc btc_ath p_eth eth_ath"

definition mc_ratio :: "real \<Rightarrow> real \<Rightarrow> real" where
  "mc_ratio p_btc p_eth = (p_eth * supply_ratio_eth_to_btc) / p_btc"

definition w_btc_mc :: "real \<Rightarrow> real \<Rightarrow> real" where
  "w_btc_mc p_btc p_eth = 1 / (1 + mc_ratio p_btc p_eth)"

definition w_eth_mc :: "real \<Rightarrow> real \<Rightarrow> real" where
  "w_eth_mc p_btc p_eth = 1 - w_btc_mc p_btc p_eth"

text \<open>The equal-weight strategy uses the literal \<open>0.5\<close> for both assets.\<close>

definition w_eq :: real where
  "w_eq = 0.5"

subsection \<open>State of the simulation (lines 40-44)\<close>

text \<open>
  The three dictionaries have the fixed keys \<open>'ATH'\<close>, \<open>'MC'\<close> and \<open>'EQ'\<close>, all
  present from the start, so each is a total function on the three keys. The
  dictionary \<open>value\<close> of the script is the field \<open>value_series\<close>.
\<close>

datatype strategy = ATH | MC | EQ

record sim_state =
  btc_holding :: "strategy \<Rightarrow> real"
  eth_holding :: "strategy \<Rightarrow> real"
  value_series :: "strategy \<Rightarrow> real list"

definition init :: sim_state where
  "init = \<lparr> btc_holding = (\<lambda>_. 0), eth_holding = (\<lambda>_. 0),
            value_series = (\<lambda>_. []) \<rparr>"

text \<open>
  The weights a strategy uses at step \<open>i\<close>, as the loop body computes them from
  \<open>btc_prices[i]\<close>, \<open>eth_prices[i]\<close>, \<open>btc_ath[i]\<close> and \<open>eth_ath[i]\<close>.
\<close>

fun w_btc :: "strategy \<Rightarrow> real \<Rightarrow> real \<Rightarrow> real \<Rightarrow> real \<Rightarrow> real" where
  "w_btc ATH p_btc a_btc p_eth a_eth = w_btc_ath p_btc a_btc p_eth a_eth"
| "w_btc MC p_btc a_btc p_eth a_eth = w_btc_mc p_btc p_eth"
| "w_btc EQ p_btc a_btc p_eth a_eth = w_eq"

fun w_eth :: "strategy \<Rightarrow> real \<Rightarrow> real \<Rightarrow> real \<Rightarrow> real \<Rightarrow> real" where
  "w_eth ATH p_btc a_btc p_eth a_eth = w_eth_ath p_btc a_btc p_eth a_eth"
| "w_eth MC p_btc a_btc p_eth a_eth = w_eth_mc p_btc p_eth"
| "w_eth EQ p_btc a_btc p_eth a_eth = w_eq"

subsection \<open>The loop body (lines 47-75)\<close>

text \<open>
  The body is four blocks run in this order: the ATH purchase, the market-cap
  purchase, the equal-weight purchase, and the three appends that record the
  portfolio values at the prices of step \<open>i\<close>.
\<close>

definition ath_block :: "real \<Rightarrow> real \<Rightarrow> real \<Rightarrow> real \<Rightarrow> sim_state \<Rightarrow> sim_state" where
  "ath_block p_btc a_btc p_eth a_eth s =
     s\<lparr> btc_holding := (btc_holding s)
            (ATH := btc_holding s ATH + (monthly_budget * w_btc_ath p_btc a_btc p_eth a_eth) / p_btc),
        eth_holding := (eth_holding s)
            (ATH := eth_holding s ATH + (monthly_budget * w_eth_ath p_btc a_btc p_eth a_eth) / p_eth) \<rparr>"

definition mc_block :: "real \<Rightarrow> real \<Rightarrow> sim_state \<Rightarrow> sim_state" where
  "mc_block p_btc p_eth s =
     s\<lparr> btc_holding := (btc_holding s)
            (MC := btc_holding s MC + (monthly_budget * w_btc_mc p_btc p_eth) / p_btc),
        eth_holding := (eth_holding s)
            (MC := eth_holding s MC + (monthly_budget * w_eth_mc p_btc p_eth) / p_eth) \<rparr>"

definition eq_block :: "real \<Rightarrow> real \<Rightarrow> sim_state \<Rightarrow> sim_state" where
  "eq_block p_btc p_eth s =
     s\<lparr> btc_holding := (btc_holding s)
            (EQ := btc_holding s EQ + (monthly_budget * w_eq) / p_btc),
        eth_holding := (eth_holding s)
            (EQ := eth_holding s EQ + (monthly_budget * w_eq) / p_eth) \<rparr>"

definition record_block :: "real \<Rightarrow> real \<Rightarrow> sim_state \<Rightarrow> sim_state" where
  "record_block p_btc p_eth s =
     s\<lparr> value_series := (value_series s)
            (ATH := value_series s ATH @ [btc_holding s ATH * p_btc + eth_holding s ATH * p_eth],
             MC := value_series s MC @ [btc_holding s MC * p_btc + eth_holding s MC * p_eth],
             EQ := value_series s EQ @ [btc_holding s EQ * p_btc + eth_holding s EQ * p_eth]) \<rparr>"

definition step ::
  "real list \<Rightarrow> real list \<Rightarrow> real list \<Rightarrow> real list \<Rightarrow> nat \<Rightarrow> sim_state \<Rightarrow> sim_state" where
  "step btc_prices eth_prices btc_ath eth_ath i s =
     (let p_btc = btc_prices ! i;
          p_eth = eth_prices ! i
      in record_block p_btc p_eth
           (eq_block p_btc p_eth
             (mc_block p_btc p_eth
               (ath_block p_btc (btc_ath ! i) p_eth (eth_ath ! i) s))))"

text \<open>
  \<open>for i in range(n)\<close>: \<open>loop ... k\<close> is the state after the iterations
  \<open>i = 0, ..., k - 1\<close>. The loop only reads indices below \<open>n\<close>, the common length of
  the four arrays.
\<close>

fun loop ::
  "real list \<Rightarrow> real list \<Rightarrow> real list \<Rightarrow> real list \<Rightarrow> nat \<Rightarrow> sim_state" where
  "loop btc_prices eth_prices btc_ath eth_ath 0 = init"
| "loop btc_prices eth_prices btc_ath eth_ath (Suc i) =
     step btc_prices eth_prices btc_ath eth_ath i (loop btc_prices eth_prices btc_ath eth_ath i)"

subsection \<open>The script from the aligned frame on (lines 19-75, 95)\<close>

text \<open>
  The exception of line 20, with its message, and the exception of an index out of
  range.
\<close>

datatype error = ValueError string | IndexError

definition not_enough_data :: error where
  "not_enough_data = ValueError ''Not enough monthly data. Something went wrong with yfinance.''"

text \<open>Sections 3 and 4 of the script: the state after \<open>k\<close> iterations on the frame \<open>df\<close>.\<close>

definition simulate_upto :: "(real \<times> real) list \<Rightarrow> nat \<Rightarrow> sim_state" where
  "simulate_upto df k =
     (let btc_prices = map fst df;
          eth_prices = map snd df;
          btc_ath = maximum_accumulate btc_prices;
          eth_ath = maximum_accumulate eth_prices
      in loop btc_prices eth_prices btc_ath eth_ath k)"

definition simulate :: "(real \<times> real) list \<Rightarrow> sim_state" where
  "simulate df = simulate_upto df (length df)"

text \<open>
  The length check of line 19 raises before anything else is computed; nothing in
  the script catches the exception.
\<close>

definition main :: "(real \<times> real) list \<Rightarrow> error + sim_state" where
  "main df = (if length df < 12 then Inl not_enough_data else Inr (simulate df))"

definition total_invested :: "nat \<Rightarrow> real" where
  "total_invested n = monthly_budget * real n"

text \<open>
  \<open>value[short][-1]\<close> (line 98): the last recorded value of a strategy. On an empty
  list the index raises.
\<close>

definition final :: "sim_state \<Rightarrow> strategy \<Rightarrow> error + real" where
  "final s k = (if value_series s k = [] then Inl IndexError else Inr (last (value_series s k)))"

subsection \<open>Views of the loop used in the statements\<close>

text \<open>
  A frame is valid for the simulation when all its prices are positive (the
  provider's invariant; the script does not check it).
\<close>

definition positive_prices :: "(real \<times> real) list \<Rightarrow> bool" where
  "positive_prices df = list_all (\<lambda>(p_btc, p_eth). 0 < p_btc \<and> 0 < p_eth) df"

text \<open>
  The pair \<open>(w_btc, w_eth)\<close> that the loop body computes for a strategy at step \<open>i\<close>
  of the frame.
\<close>

definition weights_at :: "(real \<times> real) list \<Rightarrow> strategy \<Rightarrow> nat \<Rightarrow> real \<times> real" where
  "weights_at df k i =
     (let btc_prices = map fst df;
          eth_prices = map snd df;
          btc_ath = maximum_accumulate btc_prices;
          eth_ath = maximum_accumulate eth_prices
      in (w_btc k (btc_prices ! i) (btc_ath ! i) (eth_prices ! i) (eth_ath ! i),
          w_eth k (btc_prices ! i) (btc_ath ! i) (eth_prices ! i) (eth_ath ! i)))"

text \<open>The two ATH distances at step \<open>i\<close> of the frame (lines 51-52).\<close>

definition dists_at :: "(real \<times> real) list \<Rightarrow> nat \<Rightarrow> real \<times> real" where
  "dists_at df i =
     (let btc_prices = map fst df;
          eth_prices = map snd df;
          btc_ath = maximum_accumulate btc_prices;
          eth_ath = maximum_accumulate eth_prices
      in (dist (btc_prices ! i) (btc_ath ! i), dist (eth_prices ! i) (eth_ath ! i)))"

subsection \<open>The simulator as the specification words it\<close>

text \<open>
  Section 4.5 of the specification describes a step per strategy: take the prices of
  step \<open>i\<close>, take the strategy's weights, add the two purchases to the strategy's
  holdings, and record the strategy's portfolio value. This is that step, written
  from the specification, to be compared with the loop of the script.
\<close>

definition strategy_step ::
  "real list \<Rightarrow> real list \<Rightarrow> real list \<Rightarrow> real list \<Rightarrow> strategy \<Rightarrow> nat \<Rightarrow> sim_state \<Rightarrow> sim_state" where
  "strategy_step btc_prices eth_prices btc_ath eth_ath k i s =
     (let p_btc = btc_prices ! i;
          p_eth = eth_prices ! i;
          qtyA = btc_holding s k
                 + (monthly_budget * w_btc k p_btc (btc_ath ! i) p_eth (eth_ath ! i)) / p_btc;
          qtyB = eth_holding s k
                 + (monthly_budget * w_eth k p_btc (btc_ath ! i) p_eth (eth_ath ! i)) / p_eth
      in \<lparr> btc_holding = (btc_holding s)(k := qtyA),
           eth_holding = (eth_holding s)(k := qtyB),
           value_series = (value_series s)(k := value_series s k @ [qtyA * p_btc + qtyB * p_eth]) \<rparr>)"

text \<open>
  Lockstep with a chosen order: at step \<open>i\<close> the strategies are evaluated in the
  order \<open>order i\<close>.
\<close>

fun loop_in_order ::
  "real list \<Rightarrow> real list \<Rightarrow> real list \<Rightarrow> real list \<Rightarrow> (nat \<Rightarrow> strategy list) \<Rightarrow> nat \<Rightarrow> sim_state" where
  "loop_in_order btc_prices eth_prices btc_ath eth_ath order 0 = init"
| "loop_in_order btc_prices eth_prices btc_ath eth_ath order (Suc i) =
     fold (\<lambda>k. strategy_step btc_prices eth_prices btc_ath eth_ath k i) (order i)
       (loop_in_order btc_prices eth_prices btc_ath eth_ath order i)"

text \<open>
  Any interleaving: a schedule is a list of strategies, and each entry lets that
  strategy do its next step, which is the step whose index is the number of values
  the strategy has recorded so far.
\<close>

definition run_schedule ::
  "real list \<Rightarrow> real list \<Rightarrow> real list \<Rightarrow> real list \<Rightarrow> strategy list \<Rightarrow> sim_state" where
  "run_schedule btc_prices eth_prices btc_ath eth_ath sched =
     fold (\<lambda>k s. strategy_step btc_prices eth_prices btc_ath eth_ath k (length (value_series s k)) s)
       sched init"

definition is_order :: "strategy list \<Rightarrow> bool" where
  "is_order ks = (distinct ks \<and> set ks = {ATH, MC, EQ})"

text \<open>The same two variants on a frame, with the arrays the script derives from it.\<close>

definition simulate_in_order :: "(real \<times> real) list \<Rightarrow> (nat \<Rightarrow> strategy list) \<Rightarrow> sim_state" where
  "simulate_in_order df order =
     (let btc_prices = map fst df;
          eth_prices = map snd df;
          btc_ath = maximum_accumulate btc_prices;
          eth_ath = maximum_accumulate eth_prices
      in loop_in_order btc_prices eth_prices btc_ath eth_ath order (length df))"

definition simulate_schedule :: "(real \<times> real) list \<Rightarrow> strategy list \<Rightarrow> sim_state" where
  "simulate_schedule df sched =
     (let btc_prices = map fst df;
          eth_prices = map snd df;
          btc_ath = maximum_accumulate btc_prices;
          eth_ath = maximum_accumulate eth_prices
      in run_schedule btc_prices eth_prices btc_ath eth_ath sched)"

subsection \<open>A concrete frame\<close>

text \<open>Twelve rows in which both prices rise and fall, the input of the examples below.\<close>

definition frame_mixed :: "(real \<times> real) list" where
  "frame_mixed = [(100, 50), (110, 40), (90, 45), (120, 60), (100, 30), (130, 55),
                  (125, 65), (140, 50), (110, 70), (150, 60), (145, 75), (160, 80)]"

section \<open>The same lines in binary64 arithmetic\<close>

text \<open>
  Two statements below depend on how the floats round: whether the equal-weight
  value is exactly the invested amount, and whether a market-cap weight can reach 0
  or 1. For these the market-cap lines (61-66) and the equal-weight lines (69-75) are
  modelled a second time, operation by operation, in IEEE 754 binary64 with the
  default rounding (to nearest, ties to even), which is what Python and numpy
  compute with.

  A float is the real number it denotes. \<open>fl x\<close> is the float nearest to \<open>x\<close>: a
  multiple of \<open>2^(e - 52)\<close>, where \<open>e\<close> is the binary exponent of \<open>x\<close>, not below
  \<open>-1022\<close> (so small results round on the subnormal grid \<open>2^-1074\<close>). An operation
  whose rounded result has magnitude \<open>2^1024\<close> or more, or a division by zero, gives
  \<open>None\<close>: numpy continues with an infinity or a NaN there, which is not modelled. The
  sign of zero is not modelled either; no result below is a negative zero.
\<close>

subsection \<open>Rounding\<close>

text \<open>The integer nearest to \<open>t\<close>, the even one of the two when \<open>t\<close> is halfway.\<close>

definition rne :: "real \<Rightarrow> int" where
  "rne t = (let f = \<lfloor>t\<rfloor>; d = t - of_int f
            in if d < 1 / 2 then f else if 1 / 2 < d then f + 1
               else if even f then f else f + 1)"

text \<open>
  The binary exponent of a positive number, \<open>ilog2 x = e\<close> with
  \<open>2^e \<le> x < 2^(e + 1)\<close>, found by halving or doubling.
\<close>

function ilog2_up :: "real \<Rightarrow> int" where
  "ilog2_up x = (if x < 2 then 0 else ilog2_up (x / 2) + 1)"
  by pat_completeness auto
termination
proof (relation "measure (\<lambda>x. nat \<lfloor>x\<rfloor>)")
  show "wf (measure (\<lambda>x. nat \<lfloor>x\<rfloor>))" by simp
next
  fix x :: real
  assume "\<not> x < 2"
  then have "\<lfloor>x / 2\<rfloor> < \<lfloor>x\<rfloor>" "0 < \<lfloor>x\<rfloor>" by linarith+
  then show "(x / 2, x) \<in> measure (\<lambda>x. nat \<lfloor>x\<rfloor>)" by simp
qed

function ilog2_down :: "real \<Rightarrow> int" where
  "ilog2_down x = (if x \<le> 0 \<or> 1 \<le> x then 0 else ilog2_down (2 * x) - 1)"
  by pat_completeness auto
termination
proof (relation "measure (\<lambda>x. nat \<lfloor>1 / x\<rfloor>)")
  show "wf (measure (\<lambda>x. nat \<lfloor>1 / x\<rfloor>))" by simp
next
  fix x :: real
  assume "\<not> (x \<le> 0 \<or> 1 \<le> x)"
  then have x: "0 < x" "x < 1" by simp_all
  then have y: "1 < 1 / x" by simp
  have e: "1 / (2 * x) = (1 / x) / 2" by simp
  have half: "\<lfloor>y / 2\<rfloor> < \<lfloor>y\<rfloor>" if "1 < y" for y :: real
  proof -
    have "real_of_int (2 * \<lfloor>y / 2\<rfloor>) < real_of_int (\<lfloor>y\<rfloor> + 1)"
      by simp linarith
    then have "2 * \<lfloor>y / 2\<rfloor> < \<lfloor>y\<rfloor> + 1" by (simp only: of_int_less_iff)
    moreover have "1 \<le> \<lfloor>y\<rfloor>" using that by simp
    ultimately show ?thesis by linarith
  qed
  have h: "\<lfloor>1 / (2 * x)\<rfloor> < \<lfloor>1 / x\<rfloor>"
    unfolding e by (rule half [OF y])
  have "0 < \<lfloor>1 / x\<rfloor>" using y by simp
  with h show "(2 * x, x) \<in> measure (\<lambda>x. nat \<lfloor>1 / x\<rfloor>)"
    by (simp only: in_measure)
qed

declare ilog2_up.simps [simp del] ilog2_down.simps [simp del]

definition ilog2 :: "real \<Rightarrow> int" where
  "ilog2 x = (if 1 \<le> x then ilog2_up x else ilog2_down x)"

text \<open>The exponent used for rounding, and the spacing of the floats around \<open>x\<close>.\<close>

definition expo :: "real \<Rightarrow> int" where
  "expo x = max (ilog2 \<bar>x\<bar>) (- 1022)"

definition ulp :: "real \<Rightarrow> real" where
  "ulp x = power_int 2 (expo x - 52)"

definition fl :: "real \<Rightarrow> real" where
  "fl x = (if x = 0 then 0 else sgn x * (of_int (rne (\<bar>x\<bar> / ulp x)) * ulp x))"

text \<open>The rounded result as a finite float, or \<open>None\<close> on overflow.\<close>

definition f64 :: "real \<Rightarrow> real option" where
  "f64 x = (if \<bar>fl x\<bar> < 2 ^ 1024 then Some (fl x) else None)"

definition fadd :: "real \<Rightarrow> real \<Rightarrow> real option" where
  "fadd a b = f64 (a + b)"

definition fsub :: "real \<Rightarrow> real \<Rightarrow> real option" where
  "fsub a b = f64 (a - b)"

definition fmul :: "real \<Rightarrow> real \<Rightarrow> real option" where
  "fmul a b = f64 (a * b)"

definition fdiv :: "real \<Rightarrow> real \<Rightarrow> real option" where
  "fdiv a b = (if b = 0 then None else f64 (a / b))"

subsection \<open>The market-cap strategy (lines 33, 61-66)\<close>

text \<open>\<open>120_000_000 / 19_700_000\<close>, a division of two integers that Python rounds once.\<close>

definition f64_supply_ratio :: "real option" where
  "f64_supply_ratio = fdiv 120000000 19700000"

definition f64_mc_ratio :: "real \<Rightarrow> real \<Rightarrow> real option" where
  "f64_mc_ratio p_btc p_eth =
     do { sr \<leftarrow> f64_supply_ratio;
          t \<leftarrow> fmul p_eth sr;
          fdiv t p_btc }"

definition f64_mc_weights :: "real \<Rightarrow> real \<Rightarrow> (real \<times> real) option" where
  "f64_mc_weights p_btc p_eth =
     do { mc \<leftarrow> f64_mc_ratio p_btc p_eth;
          s \<leftarrow> fadd 1 mc;
          w_btc_mc \<leftarrow> fdiv 1 s;
          w_eth_mc \<leftarrow> fsub 1 w_btc_mc;
          Some (w_btc_mc, w_eth_mc) }"

text \<open>The two quantities bought in one month, \<open>(monthly_budget * w) / p\<close>.\<close>

definition f64_mc_purchase :: "real \<Rightarrow> real \<Rightarrow> (real \<times> real) option" where
  "f64_mc_purchase p_btc p_eth =
     do { (w_btc_mc, w_eth_mc) \<leftarrow> f64_mc_weights p_btc p_eth;
          a \<leftarrow> fmul monthly_budget w_btc_mc;
          q_btc \<leftarrow> fdiv a p_btc;
          b \<leftarrow> fmul monthly_budget w_eth_mc;
          q_eth \<leftarrow> fdiv b p_eth;
          Some (q_btc, q_eth) }"

subsection \<open>The equal-weight strategy (lines 69-70, 75)\<close>

text \<open>
  The equal-weight entries of the loop: the two holdings and the list of recorded
  values after \<open>i\<close> iterations.
\<close>

fun f64_eq_loop :: "real list \<Rightarrow> real list \<Rightarrow> nat \<Rightarrow> (real \<times> real \<times> real list) option" where
  "f64_eq_loop btc_prices eth_prices 0 = Some (0, 0, [])"
| "f64_eq_loop btc_prices eth_prices (Suc i) =
     do { (btc_h, eth_h, vs) \<leftarrow> f64_eq_loop btc_prices eth_prices i;
          a \<leftarrow> fmul monthly_budget w_eq;
          q_btc \<leftarrow> fdiv a (btc_prices ! i);
          btc_h' \<leftarrow> fadd btc_h q_btc;
          b \<leftarrow> fmul monthly_budget w_eq;
          q_eth \<leftarrow> fdiv b (eth_prices ! i);
          eth_h' \<leftarrow> fadd eth_h q_eth;
          x \<leftarrow> fmul btc_h' (btc_prices ! i);
          y \<leftarrow> fmul eth_h' (eth_prices ! i);
          v \<leftarrow> fadd x y;
          Some (btc_h', eth_h', vs @ [v]) }"

definition f64_eq_values :: "(real \<times> real) list \<Rightarrow> real list option" where
  "f64_eq_values df =
     map_option (\<lambda>(btc_h, eth_h, vs). vs) (f64_eq_loop (map fst df) (map snd df) (length df))"

section \<open>Properties of the loop\<close>

subsection \<open>Running all-time high\<close>

lemma length_accumulate_from: "length (accumulate_from m xs) = length xs"
  by (induction xs arbitrary: m) simp_all

lemma length_maximum_accumulate: "length (maximum_accumulate xs) = length xs"
  by (cases xs) (simp_all add: length_accumulate_from)

lemma accumulate_from_nth:
  "i < length xs \<Longrightarrow> accumulate_from m xs ! i = fold max (take (Suc i) xs) m"
proof (induction xs arbitrary: m i)
  case Nil
  then show ?case by simp
next
  case (Cons x xs)
  show ?case
  proof (cases i)
    case 0
    then show ?thesis by (simp add: max.commute)
  next
    case (Suc j)
    with Cons.prems have "j < length xs" by simp
    from Cons.IH [OF this] Suc show ?thesis by (simp add: max.commute)
  qed
qed

lemma maximum_accumulate_nth:
  assumes "i < length xs"
  shows "maximum_accumulate xs ! i = Max (set (take (Suc i) xs))"
proof (cases xs)
  case Nil
  with assms show ?thesis by simp
next
  case (Cons x ys)
  have "maximum_accumulate (x # ys) ! i = fold max (take i ys) x"
  proof (cases i)
    case 0
    then show ?thesis by simp
  next
    case (Suc j)
    with assms Cons have "j < length ys" by simp
    then show ?thesis using Suc by (simp add: accumulate_from_nth)
  qed
  also have "\<dots> = Max (set (x # take i ys))"
    by (simp only: Max.set_eq_fold)
  finally show ?thesis using Cons by simp
qed

lemma maximum_accumulate_ge:
  assumes "i < length xs"
  shows "xs ! i \<le> maximum_accumulate xs ! i"
proof -
  have "xs ! i \<in> set (take (Suc i) xs)"
    using assms by (simp add: take_Suc_conv_app_nth)
  then show ?thesis
    using assms by (simp add: maximum_accumulate_nth)
qed

lemma maximum_accumulate_mono:
  assumes "i \<le> j" "j < length xs"
  shows "maximum_accumulate xs ! i \<le> maximum_accumulate xs ! j"
proof -
  have sub: "set (take (Suc i) xs) \<subseteq> set (take (Suc j) xs)"
    using assms by (simp add: set_take_subset_set_take)
  have ne: "set (take (Suc i) xs) \<noteq> {}" using assms by (cases xs) auto
  have "Max (set (take (Suc i) xs)) \<le> Max (set (take (Suc j) xs))"
    using sub ne by (rule Max_mono) simp
  then show ?thesis
    using assms by (simp only: maximum_accumulate_nth le_less_trans [OF assms])
qed

lemma maximum_accumulate_0: "xs \<noteq> [] \<Longrightarrow> maximum_accumulate xs ! 0 = xs ! 0"
  by (cases xs) simp_all

text \<open>
  C3: for every non-empty price sequence the running maximum has the same length,
  its element \<open>i\<close> is the maximum of the input's elements \<open>0..i\<close> inclusive, it never
  decreases, and its first element is the input's first element. Positivity of the
  prices is not needed.
\<close>

theorem running_maximum_tracker:
  fixes xs :: "real list"
  assumes "xs \<noteq> []"
  shows "length (maximum_accumulate xs) = length xs
    \<and> (\<forall>i < length xs. maximum_accumulate xs ! i = Max (set (take (Suc i) xs)))
    \<and> (\<forall>i j. i \<le> j \<and> j < length xs \<longrightarrow> maximum_accumulate xs ! i \<le> maximum_accumulate xs ! j)
    \<and> maximum_accumulate xs ! 0 = xs ! 0"
proof (intro conjI allI impI)
  show "length (maximum_accumulate xs) = length xs"
    by (rule length_maximum_accumulate)
next
  fix i assume "i < length xs"
  then show "maximum_accumulate xs ! i = Max (set (take (Suc i) xs))"
    by (rule maximum_accumulate_nth)
next
  fix i j assume "i \<le> j \<and> j < length xs"
  then show "maximum_accumulate xs ! i \<le> maximum_accumulate xs ! j"
    by (simp only: maximum_accumulate_mono)
next
  from assms show "maximum_accumulate xs ! 0 = xs ! 0"
    by (rule maximum_accumulate_0)
qed

theorem running_maximum_tracker_witness:
  "[3, 1, 4, 1, 5, 2 :: real] \<noteq> []
    \<and> maximum_accumulate [3, 1, 4, 1, 5, 2 :: real] = [3, 3, 4, 4, 5, 5]
    \<and> length (maximum_accumulate [3, 1, 4, 1, 5, 2 :: real]) = length [3, 1, 4, 1, 5, 2 :: real]
    \<and> maximum_accumulate [3, 1, 4, 1, 5, 2 :: real] ! 3 = Max (set (take (Suc 3) [3, 1, 4, 1, 5, 2 :: real]))
    \<and> maximum_accumulate [3, 1, 4, 1, 5, 2 :: real] ! 1 \<le> maximum_accumulate [3, 1, 4, 1, 5, 2 :: real] ! 4
    \<and> maximum_accumulate [3, 1, 4, 1, 5, 2 :: real] ! 0 = [3, 1, 4, 1, 5, 2 :: real] ! 0"
  using running_maximum_tracker [of "[3, 1, 4, 1, 5, 2]"] by simp

subsection \<open>The loop, strategy by strategy\<close>

text \<open>
  What one iteration does to the entries of a single strategy \<open>k\<close>: the other two
  blocks leave them alone.
\<close>

lemmas block_defs = step_def ath_block_def mc_block_def eq_block_def record_block_def Let_def

lemma btc_holding_step:
  "btc_holding (step bp ep ba ea i s) k =
     btc_holding s k + (monthly_budget * w_btc k (bp ! i) (ba ! i) (ep ! i) (ea ! i)) / (bp ! i)"
  by (cases k) (simp_all add: block_defs)

lemma eth_holding_step:
  "eth_holding (step bp ep ba ea i s) k =
     eth_holding s k + (monthly_budget * w_eth k (bp ! i) (ba ! i) (ep ! i) (ea ! i)) / (ep ! i)"
  by (cases k) (simp_all add: block_defs)

lemma value_series_step:
  "value_series (step bp ep ba ea i s) k =
     value_series s k @ [btc_holding (step bp ep ba ea i s) k * (bp ! i)
                         + eth_holding (step bp ep ba ea i s) k * (ep ! i)]"
  by (cases k) (simp_all add: block_defs)

lemma length_value_series_loop: "length (value_series (loop bp ep ba ea n) k) = n"
  by (induction n) (simp_all add: init_def value_series_step)

lemma value_series_loop_take:
  "i \<le> n \<Longrightarrow> take i (value_series (loop bp ep ba ea n) k) = value_series (loop bp ep ba ea i) k"
proof (induction n)
  case 0
  then show ?case by (simp add: init_def)
next
  case (Suc n)
  show ?case
  proof (cases "i = Suc n")
    case True
    then show ?thesis by (simp add: length_value_series_loop del: loop.simps)
  next
    case False
    with Suc.prems have "i \<le> n" by simp
    with Suc.IH show ?thesis
      by (simp add: value_series_step length_value_series_loop)
  qed
qed

lemma value_series_loop_nth:
  assumes "i < n"
  shows "value_series (loop bp ep ba ea n) k ! i =
           btc_holding (loop bp ep ba ea (Suc i)) k * (bp ! i)
           + eth_holding (loop bp ep ba ea (Suc i)) k * (ep ! i)"
proof -
  have "value_series (loop bp ep ba ea n) k ! i
          = take (Suc i) (value_series (loop bp ep ba ea n) k) ! i"
    by simp
  also have "\<dots> = value_series (loop bp ep ba ea (Suc i)) k ! i"
    using assms by (simp only: value_series_loop_take Suc_leI)
  also have "\<dots> = btc_holding (loop bp ep ba ea (Suc i)) k * (bp ! i)
           + eth_holding (loop bp ep ba ea (Suc i)) k * (ep ! i)"
    by (simp add: value_series_step nth_append length_value_series_loop)
  finally show ?thesis .
qed

lemmas strategy_eval = simulate_def simulate_upto_def final_def value_series_step btc_holding_step
  eth_holding_step init_def Let_def

lemma btc_holding_upto_Suc:
  assumes "i < length df"
  shows "btc_holding (simulate_upto df (Suc i)) k =
           btc_holding (simulate_upto df i) k + (monthly_budget * fst (weights_at df k i)) / fst (df ! i)"
  using assms by (simp add: simulate_upto_def weights_at_def btc_holding_step Let_def)

lemma eth_holding_upto_Suc:
  assumes "i < length df"
  shows "eth_holding (simulate_upto df (Suc i)) k =
           eth_holding (simulate_upto df i) k + (monthly_budget * snd (weights_at df k i)) / snd (df ! i)"
  using assms by (simp add: simulate_upto_def weights_at_def eth_holding_step Let_def)

lemma length_value_series_simulate: "length (value_series (simulate df) k) = length df"
  by (simp add: simulate_def simulate_upto_def Let_def length_value_series_loop)

lemma value_series_simulate_nth:
  assumes "i < length df"
  shows "value_series (simulate df) k ! i =
           btc_holding (simulate_upto df (Suc i)) k * fst (df ! i)
           + eth_holding (simulate_upto df (Suc i)) k * snd (df ! i)"
  using assms value_series_loop_nth [OF assms]
  by (simp add: simulate_def simulate_upto_def Let_def del: loop.simps)

lemma weights_at_EQ: "weights_at df EQ i = (w_eq, w_eq)"
  by (simp add: weights_at_def Let_def)

lemma length_frame_mixed: "length frame_mixed = 12"
  by (simp add: frame_mixed_def)

lemma positive_frame_mixed: "positive_prices frame_mixed"
  by (simp add: frame_mixed_def positive_prices_def)

text \<open>
  C4: the value series of every strategy has the length of the frame, and its
  element \<open>i\<close> is \<open>holdingA * priceA[i] + holdingB * priceB[i]\<close> for the holdings after
  iteration \<open>i\<close>, which are the holdings before it plus the purchase of month \<open>i\<close>.
\<close>

theorem value_series_after_purchase:
  "length (value_series (simulate df) k) = length df
   \<and> (\<forall>i < length df.
        value_series (simulate df) k ! i =
          btc_holding (simulate_upto df (Suc i)) k * fst (df ! i)
          + eth_holding (simulate_upto df (Suc i)) k * snd (df ! i)
      \<and> btc_holding (simulate_upto df (Suc i)) k =
          btc_holding (simulate_upto df i) k + (monthly_budget * fst (weights_at df k i)) / fst (df ! i)
      \<and> eth_holding (simulate_upto df (Suc i)) k =
          eth_holding (simulate_upto df i) k + (monthly_budget * snd (weights_at df k i)) / snd (df ! i))"
  by (simp add: length_value_series_simulate value_series_simulate_nth
        btc_holding_upto_Suc eth_holding_upto_Suc del: loop.simps)

theorem value_series_after_purchase_witness:
  "1 < length frame_mixed
   \<and> length (value_series (simulate frame_mixed) EQ) = length frame_mixed
   \<and> btc_holding (simulate_upto frame_mixed 1) EQ = 5 / 2
   \<and> eth_holding (simulate_upto frame_mixed 1) EQ = 5
   \<and> btc_holding (simulate_upto frame_mixed (Suc 1)) EQ = 5 / 2 + (500 * (1 / 2)) / 110
   \<and> eth_holding (simulate_upto frame_mixed (Suc 1)) EQ = 5 + (500 * (1 / 2)) / 40
   \<and> value_series (simulate frame_mixed) EQ ! 1 = (5 / 2 + 250 / 110) * 110 + (5 + 250 / 40) * 40"
proof -
  have i: "1 < length frame_mixed" by (simp add: length_frame_mixed)
  have h: "btc_holding (simulate_upto frame_mixed 1) EQ = 5 / 2"
    "eth_holding (simulate_upto frame_mixed 1) EQ = 5"
    by (simp_all add: frame_mixed_def simulate_upto_def btc_holding_step eth_holding_step
          init_def w_eq_def monthly_budget_def)
  have r: "frame_mixed ! 1 = (110, 40)" by (simp add: frame_mixed_def)
  from value_series_after_purchase [of frame_mixed EQ] i h r
  show ?thesis by (simp add: weights_at_EQ w_eq_def monthly_budget_def)
qed

subsection \<open>The length check\<close>

text \<open>
  C8: a frame of exactly 12 rows is accepted and simulated; a frame of fewer than
  12 rows (11 for one) ends in the exception of line 20, and no simulation result
  exists. The exception is Python's \<open>ValueError\<close>, which the specification calls
  InsufficientDataError.
\<close>

theorem twelve_points_accepted:
  "(length df = 12 \<longrightarrow> main df = Inr (simulate df))
   \<and> (length df < 12 \<longrightarrow> main df = Inl not_enough_data)"
  by (simp add: main_def)

theorem twelve_points_accepted_witness:
  "length frame_mixed = 12 \<and> main frame_mixed = Inr (simulate frame_mixed)
   \<and> length (butlast frame_mixed) = 11 \<and> main (butlast frame_mixed) = Inl not_enough_data"
  using twelve_points_accepted [of frame_mixed] twelve_points_accepted [of "butlast frame_mixed"]
  by (simp add: length_frame_mixed)

subsection \<open>Arithmetic of the weights\<close>

lemma eps_pos: "0 < eps"
  by (simp add: eps_def)

lemma supply_ratio_pos: "0 < supply_ratio_eth_to_btc"
  by (simp add: supply_ratio_eth_to_btc_def)

lemma monthly_budget_pos: "0 < monthly_budget"
  by (simp add: monthly_budget_def)

lemma dist_nonneg: "0 < p \<Longrightarrow> p \<le> a \<Longrightarrow> 0 \<le> dist p a"
  by (simp add: dist_def)

lemma dist_self: "p \<noteq> 0 \<Longrightarrow> dist p p = 0"
  by (simp add: dist_def)

lemma total_dist_pos:
  assumes "0 < p_btc" "p_btc \<le> a_btc" "0 < p_eth" "p_eth \<le> a_eth"
  shows "0 < total_dist p_btc a_btc p_eth a_eth"
  using dist_nonneg [OF assms(1,2)] dist_nonneg [OF assms(3,4)] eps_pos
  by (simp add: total_dist_def)

lemma w_btc_ath_nonneg:
  assumes "0 < p_btc" "p_btc \<le> a_btc" "0 < p_eth" "p_eth \<le> a_eth"
  shows "0 \<le> w_btc_ath p_btc a_btc p_eth a_eth"
  using dist_nonneg [OF assms(1,2)] total_dist_pos [OF assms]
  by (simp add: w_btc_ath_def)

lemma w_eth_ath_nonneg:
  assumes "0 < p_btc" "p_btc \<le> a_btc" "0 < p_eth" "p_eth \<le> a_eth"
  shows "0 \<le> w_eth_ath p_btc a_btc p_eth a_eth"
  using dist_nonneg [OF assms(3,4)] total_dist_pos [OF assms]
  by (simp add: w_eth_ath_def)

lemma mc_ratio_pos: "0 < p_btc \<Longrightarrow> 0 < p_eth \<Longrightarrow> 0 < mc_ratio p_btc p_eth"
  by (simp add: mc_ratio_def supply_ratio_pos)

lemma w_btc_mc_bounds:
  assumes "0 < p_btc" "0 < p_eth"
  shows "0 < w_btc_mc p_btc p_eth" and "w_btc_mc p_btc p_eth < 1"
  using mc_ratio_pos [OF assms] by (simp_all add: w_btc_mc_def)

lemma w_eth_mc_bounds:
  assumes "0 < p_btc" "0 < p_eth"
  shows "0 < w_eth_mc p_btc p_eth" and "w_eth_mc p_btc p_eth < 1"
  using w_btc_mc_bounds [OF assms] by (simp_all add: w_eth_mc_def)

lemma w_eq_pos: "0 < w_eq"
  by (simp add: w_eq_def)

lemma w_btc_nonneg:
  assumes "0 < p_btc" "p_btc \<le> a_btc" "0 < p_eth" "p_eth \<le> a_eth"
  shows "0 \<le> w_btc k p_btc a_btc p_eth a_eth"
proof (cases k)
  case ATH
  then show ?thesis using w_btc_ath_nonneg [OF assms] by simp
next
  case MC
  then show ?thesis using w_btc_mc_bounds(1) [OF assms(1,3)] by simp
next
  case EQ
  then show ?thesis using w_eq_pos by simp
qed

lemma w_eth_nonneg:
  assumes "0 < p_btc" "p_btc \<le> a_btc" "0 < p_eth" "p_eth \<le> a_eth"
  shows "0 \<le> w_eth k p_btc a_btc p_eth a_eth"
proof (cases k)
  case ATH
  then show ?thesis using w_eth_ath_nonneg [OF assms] by simp
next
  case MC
  then show ?thesis using w_eth_mc_bounds(1) [OF assms(1,3)] by simp
next
  case EQ
  then show ?thesis using w_eq_pos by simp
qed

text \<open>Rows of a frame with positive prices.\<close>

lemma positive_prices_nth:
  assumes "positive_prices df" "i < length df"
  shows "0 < map fst df ! i" and "0 < map snd df ! i"
proof -
  from assms have "case df ! i of (p_btc, p_eth) \<Rightarrow> 0 < p_btc \<and> 0 < p_eth"
    by (simp add: positive_prices_def list_all_length)
  then have "0 < fst (df ! i) \<and> 0 < snd (df ! i)"
    by (simp add: case_prod_beta)
  with assms(2) show "0 < map fst df ! i" and "0 < map snd df ! i"
    by simp_all
qed

lemma price_le_ath:
  assumes "i < length df"
  shows "map fst df ! i \<le> maximum_accumulate (map fst df) ! i"
    and "map snd df ! i \<le> maximum_accumulate (map snd df) ! i"
  using assms by (simp_all add: maximum_accumulate_ge del: nth_map)

lemma weights_at_nonneg:
  assumes "positive_prices df" "i < length df"
  shows "0 \<le> fst (weights_at df k i)" and "0 \<le> snd (weights_at df k i)"
  using w_btc_nonneg [OF positive_prices_nth(1) [OF assms] price_le_ath(1) [OF assms(2)]
                         positive_prices_nth(2) [OF assms] price_le_ath(2) [OF assms(2)]]
        w_eth_nonneg [OF positive_prices_nth(1) [OF assms] price_le_ath(1) [OF assms(2)]
                         positive_prices_nth(2) [OF assms] price_le_ath(2) [OF assms(2)]]
  by (simp_all add: weights_at_def Let_def del: nth_map)

lemma positive_prices_fst_snd:
  assumes "positive_prices df" "i < length df"
  shows "0 < fst (df ! i)" and "0 < snd (df ! i)"
  using positive_prices_nth [OF assms] assms(2) by simp_all

subsection \<open>Weights: sign and sum\<close>

text \<open>
  C1: the claim fails on the code for the ATH strategy. Its two weights are
  \<open>dist_btc / total_dist\<close> and \<open>dist_eth / total_dist\<close> with
  \<open>total_dist = dist_btc + dist_eth + 1e-12\<close>, so their sum is \<open>D / (D + 1e-12)\<close> for
  \<open>D = dist_btc + dist_eth\<close>, not 1. In the frame below both assets are at their
  running high at step 0 and again at step 3; there both weights are 0 and the sum
  misses 1 by 1. The script nevertheless counts \<open>monthly_budget\<close> as invested in
  every month for every strategy (line 95).
\<close>

theorem ath_weights_do_not_sum_to_one:
  "positive_prices
     [(100, 50), (110, 40), (90, 45), (120, 60), (100, 30), (130, 55),
      (125, 65), (140, 50), (110, 70), (150, 60), (145, 75), (160, 80)]
   \<and> main [(100, 50), (110, 40), (90, 45), (120, 60), (100, 30), (130, 55),
      (125, 65), (140, 50), (110, 70), (150, 60), (145, 75), (160, 80)]
       \<noteq> Inl not_enough_data
   \<and> weights_at
        [(100, 50), (110, 40), (90, 45), (120, 60), (100, 30), (130, 55),
      (125, 65), (140, 50), (110, 70), (150, 60), (145, 75), (160, 80)] ATH 0 = (0, 0)
   \<and> weights_at
        [(100, 50), (110, 40), (90, 45), (120, 60), (100, 30), (130, 55),
      (125, 65), (140, 50), (110, 70), (150, 60), (145, 75), (160, 80)] ATH 3 = (0, 0)
   \<and> \<not> \<bar>fst (weights_at
        [(100, 50), (110, 40), (90, 45), (120, 60), (100, 30), (130, 55),
      (125, 65), (140, 50), (110, 70), (150, 60), (145, 75), (160, 80)] ATH 0)
         + snd (weights_at
        [(100, 50), (110, 40), (90, 45), (120, 60), (100, 30), (130, 55),
      (125, 65), (140, 50), (110, 70), (150, 60), (145, 75), (160, 80)] ATH 0) - 1\<bar> \<le> 1 / 10 ^ 9"
  by (simp add: positive_prices_def main_def weights_at_def w_btc_ath_def w_eth_ath_def
        total_dist_def dist_def eps_def)

text \<open>
  C2: a frame in which both prices rise every month, so that both assets are at
  their running high at every step. At step 5 both distances are 0 and the ATH
  weights are \<open>0 / 1e-12 = 0\<close> each, not an even split; no division by zero occurs.
  The ATH strategy buys nothing in any month and its final value is 0, while the
  script reports 6000 as invested.
\<close>

theorem ath_weights_at_joint_high:
  "positive_prices [(100, 50), (110, 55), (120, 60), (130, 65), (140, 70), (150, 75),
                    (160, 80), (170, 85), (180, 90), (190, 95), (200, 100), (210, 105)]
   \<and> dists_at [(100, 50), (110, 55), (120, 60), (130, 65), (140, 70), (150, 75),
               (160, 80), (170, 85), (180, 90), (190, 95), (200, 100), (210, 105)] 5 = (0, 0)
   \<and> weights_at [(100, 50), (110, 55), (120, 60), (130, 65), (140, 70), (150, 75),
                 (160, 80), (170, 85), (180, 90), (190, 95), (200, 100), (210, 105)] ATH 5 = (0, 0)
   \<and> final (simulate [(100, 50), (110, 55), (120, 60), (130, 65), (140, 70), (150, 75),
                 (160, 80), (170, 85), (180, 90), (190, 95), (200, 100), (210, 105)]) ATH = Inr 0
   \<and> total_invested 12 = 6000"
  by (simp add: positive_prices_def dists_at_def weights_at_def strategy_eval eval_nat_numeral
        w_btc_ath_def w_eth_ath_def dist_def total_invested_def monthly_budget_def)

lemma dists_at_0:
  assumes "positive_prices df" "df \<noteq> []"
  shows "dists_at df 0 = (0, 0)"
proof -
  from assms(2) have l: "0 < length df" by simp
  have "map fst df ! 0 \<noteq> 0" "map snd df ! 0 \<noteq> 0"
    using positive_prices_nth [OF assms(1) l] by simp_all
  moreover have "maximum_accumulate (map fst df) ! 0 = map fst df ! 0"
    "maximum_accumulate (map snd df) ! 0 = map snd df ! 0"
    using assms(2) by (simp_all add: maximum_accumulate_0)
  ultimately show ?thesis
    by (simp add: dists_at_def Let_def dist_self del: nth_map)
qed

lemma weights_at_ATH_zero_dist:
  assumes "dists_at df i = (0, 0)"
  shows "weights_at df ATH i = (0, 0)"
  using assms by (simp add: dists_at_def weights_at_def w_btc_ath_def w_eth_ath_def Let_def)

text \<open>
  C9: at step 0 of every non-empty frame with positive prices both distances are
  0, both ATH weights are 0, both purchases of month 0 are 0, the ATH holdings after
  the first iteration are 0, and the first recorded ATH value is 0.
\<close>

theorem ath_strategy_skips_first_month:
  assumes "positive_prices df" "df \<noteq> []"
  shows "dists_at df 0 = (0, 0) \<and> weights_at df ATH 0 = (0, 0)
   \<and> (monthly_budget * fst (weights_at df ATH 0)) / fst (df ! 0) = 0
   \<and> (monthly_budget * snd (weights_at df ATH 0)) / snd (df ! 0) = 0
   \<and> btc_holding (simulate_upto df 1) ATH = 0 \<and> eth_holding (simulate_upto df 1) ATH = 0
   \<and> value_series (simulate df) ATH ! 0 = 0"
proof -
  from assms(2) have l: "0 < length df" by simp
  have d: "dists_at df 0 = (0, 0)" by (rule dists_at_0 [OF assms])
  have w: "weights_at df ATH 0 = (0, 0)" by (rule weights_at_ATH_zero_dist [OF d])
  have b: "btc_holding (simulate_upto df (Suc 0)) ATH = 0"
    by (simp only: btc_holding_upto_Suc [OF l] w) (simp add: simulate_upto_def init_def)
  have e: "eth_holding (simulate_upto df (Suc 0)) ATH = 0"
    by (simp only: eth_holding_upto_Suc [OF l] w) (simp add: simulate_upto_def init_def)
  have v: "value_series (simulate df) ATH ! 0 = 0"
    by (simp only: value_series_simulate_nth [OF l] b e mult_zero_left add_0_left)
  from d w b e v show ?thesis by simp
qed

theorem ath_strategy_skips_first_month_witness:
  "positive_prices frame_mixed \<and> frame_mixed \<noteq> []
   \<and> dists_at frame_mixed 0 = (0, 0) \<and> weights_at frame_mixed ATH 0 = (0, 0)
   \<and> btc_holding (simulate_upto frame_mixed 1) ATH = 0
   \<and> eth_holding (simulate_upto frame_mixed 1) ATH = 0
   \<and> value_series (simulate frame_mixed) ATH ! 0 = 0"
proof -
  have ne: "frame_mixed \<noteq> []" by (simp add: frame_mixed_def)
  from ath_strategy_skips_first_month [OF positive_frame_mixed ne] positive_frame_mixed ne
  show ?thesis by simp
qed

subsection \<open>Holdings\<close>

text \<open>
  C5: for every strategy the two holdings are 0 before the first iteration, and no
  iteration on a frame with positive prices decreases either of them.
\<close>

theorem holdings_non_decreasing:
  assumes "positive_prices df"
  shows "btc_holding (simulate_upto df 0) k = 0 \<and> eth_holding (simulate_upto df 0) k = 0
   \<and> (\<forall>i < length df.
        btc_holding (simulate_upto df i) k \<le> btc_holding (simulate_upto df (Suc i)) k
      \<and> eth_holding (simulate_upto df i) k \<le> eth_holding (simulate_upto df (Suc i)) k)"
proof (intro conjI allI impI)
  show "btc_holding (simulate_upto df 0) k = 0" "eth_holding (simulate_upto df 0) k = 0"
    by (simp_all add: simulate_upto_def init_def)
next
  fix i assume i: "i < length df"
  have "0 \<le> (monthly_budget * fst (weights_at df k i)) / fst (df ! i)"
    using weights_at_nonneg(1) [OF assms i] positive_prices_fst_snd(1) [OF assms i] monthly_budget_pos
    by simp
  then show "btc_holding (simulate_upto df i) k \<le> btc_holding (simulate_upto df (Suc i)) k"
    by (simp only: btc_holding_upto_Suc [OF i] le_add_same_cancel1)
  have "0 \<le> (monthly_budget * snd (weights_at df k i)) / snd (df ! i)"
    using weights_at_nonneg(2) [OF assms i] positive_prices_fst_snd(2) [OF assms i] monthly_budget_pos
    by simp
  then show "eth_holding (simulate_upto df i) k \<le> eth_holding (simulate_upto df (Suc i)) k"
    by (simp only: eth_holding_upto_Suc [OF i] le_add_same_cancel1)
qed

theorem holdings_non_decreasing_witness:
  "positive_prices frame_mixed \<and> 2 < length frame_mixed
   \<and> btc_holding (simulate_upto frame_mixed 0) ATH = 0
   \<and> eth_holding (simulate_upto frame_mixed 0) ATH = 0
   \<and> btc_holding (simulate_upto frame_mixed 2) ATH \<le> btc_holding (simulate_upto frame_mixed (Suc 2)) ATH
   \<and> eth_holding (simulate_upto frame_mixed 2) ATH \<le> eth_holding (simulate_upto frame_mixed (Suc 2)) ATH"
proof -
  have i: "2 < length frame_mixed" by (simp add: length_frame_mixed)
  from holdings_non_decreasing [OF positive_frame_mixed, of ATH]
  have "btc_holding (simulate_upto frame_mixed 0) ATH = 0 \<and> eth_holding (simulate_upto frame_mixed 0) ATH = 0"
    and "\<forall>i < length frame_mixed.
        btc_holding (simulate_upto frame_mixed i) ATH \<le> btc_holding (simulate_upto frame_mixed (Suc i)) ATH
      \<and> eth_holding (simulate_upto frame_mixed i) ATH \<le> eth_holding (simulate_upto frame_mixed (Suc i)) ATH"
    by blast+
  with i positive_frame_mixed show ?thesis by blast
qed

subsection \<open>Independence of the strategies\<close>

lemma strategy_step_fields:
  "btc_holding (strategy_step bp ep ba ea k i s) k' =
     (if k' = k then btc_holding s k + (monthly_budget * w_btc k (bp ! i) (ba ! i) (ep ! i) (ea ! i)) / (bp ! i)
      else btc_holding s k')"
  "eth_holding (strategy_step bp ep ba ea k i s) k' =
     (if k' = k then eth_holding s k + (monthly_budget * w_eth k (bp ! i) (ba ! i) (ep ! i) (ea ! i)) / (ep ! i)
      else eth_holding s k')"
  "value_series (strategy_step bp ep ba ea k i s) k' =
     (if k' = k
      then value_series s k @
        [(btc_holding s k + (monthly_budget * w_btc k (bp ! i) (ba ! i) (ep ! i) (ea ! i)) / (bp ! i)) * (bp ! i)
         + (eth_holding s k + (monthly_budget * w_eth k (bp ! i) (ba ! i) (ep ! i) (ea ! i)) / (ep ! i)) * (ep ! i)]
      else value_series s k')"
  by (simp_all add: strategy_step_def Let_def)

lemma step_fields_as_strategy_step:
  "btc_holding (step bp ep ba ea i s) k = btc_holding (strategy_step bp ep ba ea k i s) k"
  "eth_holding (step bp ep ba ea i s) k = eth_holding (strategy_step bp ep ba ea k i s) k"
  "value_series (step bp ep ba ea i s) k = value_series (strategy_step bp ep ba ea k i s) k"
  by (simp_all add: strategy_step_fields btc_holding_step eth_holding_step value_series_step)

lemma fold_strategy_step_fields:
  assumes "distinct ks"
  shows "btc_holding (fold (\<lambda>k. strategy_step bp ep ba ea k i) ks s) k =
           (if k \<in> set ks then btc_holding (strategy_step bp ep ba ea k i s) k else btc_holding s k)
       \<and> eth_holding (fold (\<lambda>k. strategy_step bp ep ba ea k i) ks s) k =
           (if k \<in> set ks then eth_holding (strategy_step bp ep ba ea k i s) k else eth_holding s k)
       \<and> value_series (fold (\<lambda>k. strategy_step bp ep ba ea k i) ks s) k =
           (if k \<in> set ks then value_series (strategy_step bp ep ba ea k i s) k else value_series s k)"
  using assms
proof (induction ks arbitrary: s)
  case Nil
  show ?case by simp
next
  case (Cons a ks)
  then have "distinct ks" and a: "a \<notin> set ks" by simp_all
  note IH = Cons.IH [OF \<open>distinct ks\<close>, of "strategy_step bp ep ba ea a i s"]
  show ?case
  proof (cases "k = a")
    case True
    with a IH show ?thesis by simp
  next
    case False
    with IH show ?thesis by (simp add: strategy_step_fields)
  qed
qed

lemma sim_state_eqI:
  fixes s t :: sim_state
  assumes "\<And>k. btc_holding s k = btc_holding t k"
    and "\<And>k. eth_holding s k = eth_holding t k"
    and "\<And>k. value_series s k = value_series t k"
  shows "s = t"
proof -
  have "btc_holding s = btc_holding t" "eth_holding s = eth_holding t"
    "value_series s = value_series t"
    using assms by (simp_all add: fun_eq_iff)
  then show ?thesis by simp
qed

lemma is_order_set: "is_order ks \<Longrightarrow> k \<in> set ks"
  by (cases k) (simp_all add: is_order_def)

lemma step_in_any_order:
  assumes "is_order ks"
  shows "fold (\<lambda>k. strategy_step bp ep ba ea k i) ks s = step bp ep ba ea i s"
proof (rule sim_state_eqI)
  from assms have d: "distinct ks" by (simp add: is_order_def)
  fix k
  have k: "k \<in> set ks" by (rule is_order_set [OF assms])
  show "btc_holding (fold (\<lambda>k. strategy_step bp ep ba ea k i) ks s) k = btc_holding (step bp ep ba ea i s) k"
    using fold_strategy_step_fields [OF d, of bp ep ba ea i s k] k
    by (simp add: step_fields_as_strategy_step)
  show "eth_holding (fold (\<lambda>k. strategy_step bp ep ba ea k i) ks s) k = eth_holding (step bp ep ba ea i s) k"
    using fold_strategy_step_fields [OF d, of bp ep ba ea i s k] k
    by (simp add: step_fields_as_strategy_step)
  show "value_series (fold (\<lambda>k. strategy_step bp ep ba ea k i) ks s) k = value_series (step bp ep ba ea i s) k"
    using fold_strategy_step_fields [OF d, of bp ep ba ea i s k] k
    by (simp add: step_fields_as_strategy_step)
qed

lemma loop_in_any_order:
  assumes "\<forall>i < n. is_order (order i)"
  shows "loop_in_order bp ep ba ea order n = loop bp ep ba ea n"
  using assms by (induction n) (simp_all add: step_in_any_order)

lemma run_schedule_snoc:
  "run_schedule bp ep ba ea (sched @ [k]) =
     strategy_step bp ep ba ea k (length (value_series (run_schedule bp ep ba ea sched) k))
       (run_schedule bp ep ba ea sched)"
  by (simp add: run_schedule_def)

lemma run_schedule_fields:
  "btc_holding (run_schedule bp ep ba ea sched) k = btc_holding (loop bp ep ba ea (count_list sched k)) k
   \<and> eth_holding (run_schedule bp ep ba ea sched) k = eth_holding (loop bp ep ba ea (count_list sched k)) k
   \<and> value_series (run_schedule bp ep ba ea sched) k = value_series (loop bp ep ba ea (count_list sched k)) k"
proof (induction sched arbitrary: k rule: rev_induct)
  case Nil
  show ?case by (simp add: run_schedule_def)
next
  case (snoc a sched)
  show ?case
  proof (cases "k = a")
    case True
    show ?thesis
      using snoc [of a] True
      by (simp add: run_schedule_snoc length_value_series_loop strategy_step_fields
            step_fields_as_strategy_step)
  next
    case False
    with snoc [of k] show ?thesis
      by (simp add: run_schedule_snoc strategy_step_fields)
  qed
qed

lemma run_schedule_full:
  assumes "\<forall>k. count_list sched k = n"
  shows "run_schedule bp ep ba ea sched = loop bp ep ba ea n"
  using assms run_schedule_fields [of bp ep ba ea sched]
  by (intro sim_state_eqI) simp_all

lemma count_list_replicate_eq: "count_list (replicate n x) y = (if x = y then n else 0)"
  by (induction n) auto

text \<open>
  C6: evaluating the three strategies in any order within each step (the order may
  change from step to step) gives the state the script's loop gives; so does any
  interleaving in which every strategy makes all its steps; and in any interleaving
  at all the value series of a strategy is the one the loop produces in as many
  iterations as the strategy has made steps, whatever the other strategies did.
\<close>

theorem strategies_independent:
  "((\<forall>i < length df. is_order (order i)) \<longrightarrow> simulate_in_order df order = simulate df)
   \<and> ((\<forall>k. count_list sched k = length df) \<longrightarrow> simulate_schedule df sched = simulate df)
   \<and> ((\<forall>k'. count_list sched k' \<le> length df) \<longrightarrow>
        value_series (simulate_schedule df sched) k
          = value_series (simulate_upto df (count_list sched k)) k)"
  by (simp add: simulate_in_order_def simulate_schedule_def simulate_def simulate_upto_def Let_def
        loop_in_any_order run_schedule_full run_schedule_fields del: loop.simps loop_in_order.simps)

theorem strategies_independent_witness:
  "is_order [EQ, ATH, MC] \<and> is_order [MC, EQ, ATH]
   \<and> simulate_in_order frame_mixed (\<lambda>i. if even i then [EQ, ATH, MC] else [MC, EQ, ATH])
        = simulate frame_mixed
   \<and> count_list (replicate 12 EQ @ replicate 12 ATH @ replicate 12 MC) ATH = length frame_mixed
   \<and> count_list (replicate 12 EQ @ replicate 12 ATH @ replicate 12 MC) MC = length frame_mixed
   \<and> count_list (replicate 12 EQ @ replicate 12 ATH @ replicate 12 MC) EQ = length frame_mixed
   \<and> simulate_schedule frame_mixed (replicate 12 EQ @ replicate 12 ATH @ replicate 12 MC)
        = simulate frame_mixed
   \<and> value_series (simulate_schedule frame_mixed [EQ, MC, EQ]) EQ = [500, 975]"
proof -
  have o: "is_order [EQ, ATH, MC]" "is_order [MC, EQ, ATH]"
    by (auto simp: is_order_def)
  have c: "count_list (replicate 12 EQ @ replicate 12 ATH @ replicate 12 MC) k = length frame_mixed" for k
    by (cases k) (simp_all add: count_list_replicate_eq length_frame_mixed)
  have v: "value_series (simulate_upto frame_mixed 2) EQ = [500, 975]"
    by (simp add: frame_mixed_def strategy_eval eval_nat_numeral w_eq_def monthly_budget_def)
  have oo: "\<forall>i < length frame_mixed. is_order (if even i then [EQ, ATH, MC] else [MC, EQ, ATH])"
    using o by simp
  have cc: "\<forall>k. count_list (replicate 12 EQ @ replicate 12 ATH @ replicate 12 MC) k = length frame_mixed"
    using c by simp
  have n: "count_list [EQ, MC, EQ] EQ = 2" by simp
  from strategies_independent [of frame_mixed "\<lambda>i. if even i then [EQ, ATH, MC] else [MC, EQ, ATH]"
      "replicate 12 EQ @ replicate 12 ATH @ replicate 12 MC"] oo cc
  have a: "simulate_in_order frame_mixed (\<lambda>i. if even i then [EQ, ATH, MC] else [MC, EQ, ATH])
             = simulate frame_mixed"
    and b: "simulate_schedule frame_mixed (replicate 12 EQ @ replicate 12 ATH @ replicate 12 MC)
             = simulate frame_mixed"
    by blast+
  have le: "\<forall>k'. count_list [EQ, MC, EQ] k' \<le> length frame_mixed"
    by (simp add: length_frame_mixed)
  from strategies_independent [of frame_mixed "\<lambda>i. []" "[EQ, MC, EQ]" EQ] le
  have "value_series (simulate_schedule frame_mixed [EQ, MC, EQ]) EQ
          = value_series (simulate_upto frame_mixed (count_list [EQ, MC, EQ] EQ)) EQ"
    by blast
  with v n have d: "value_series (simulate_schedule frame_mixed [EQ, MC, EQ]) EQ = [500, 975]"
    by (simp only:)
  from o c [of ATH] c [of MC] c [of EQ] a b d show ?thesis by blast
qed

section \<open>Properties of the binary64 model\<close>

subsection \<open>Exponent and rounding to an integer\<close>

lemma ilog2_up_spec:
  "1 \<le> x \<Longrightarrow> 0 \<le> ilog2_up x \<and> power_int 2 (ilog2_up x) \<le> x \<and> x < power_int 2 (ilog2_up x + 1)"
proof (induction x rule: ilog2_up.induct)
  case (1 x)
  show ?case
  proof (cases "x < 2")
    case True
    with 1 show ?thesis by (simp add: ilog2_up.simps [of x])
  next
    case False
    then have h: "1 \<le> x / 2" by simp
    let ?e = "ilog2_up (x / 2)"
    from "1.IH" [OF False h]
    have e: "0 \<le> ?e" "power_int 2 ?e \<le> x / 2" "x / 2 < power_int 2 (?e + 1)" by simp_all
    have p: "power_int 2 (k + 1) = 2 * power_int (2 :: real) k" for k :: int
      by (simp add: power_int_add)
    have r: "ilog2_up x = ?e + 1" using False by (simp add: ilog2_up.simps [of x])
    have "0 \<le> ?e + 1" using e(1) by simp
    moreover have "power_int 2 (?e + 1) \<le> x" using e(2) p [of ?e] by linarith
    moreover have "x < power_int 2 (?e + 1 + 1)" using e(3) p [of "?e + 1"] by linarith
    ultimately show ?thesis by (simp only: r)
  qed
qed

lemma ilog2_down_spec:
  "0 < x \<Longrightarrow> x < 1 \<Longrightarrow>
     ilog2_down x < 0 \<and> power_int 2 (ilog2_down x) \<le> x \<and> x < power_int 2 (ilog2_down x + 1)"
proof (induction x rule: ilog2_down.induct)
  case (1 x)
  from "1.prems" have c: "\<not> (x \<le> 0 \<or> 1 \<le> x)" by simp
  have p: "power_int 2 (k - 1) = power_int (2 :: real) k / 2" for k :: int
    by (simp add: power_int_diff)
  have s: "ilog2_down x = ilog2_down (2 * x) - 1"
    using c by (simp add: ilog2_down.simps [of x])
  show ?case
  proof (cases "2 * x < 1")
    case True
    let ?e = "ilog2_down (2 * x)"
    from "1.IH" [OF c _ True] "1.prems"
    have e: "?e < 0" "power_int 2 ?e \<le> 2 * x" "2 * x < power_int 2 (?e + 1)" by simp_all
    have "?e - 1 < 0" using e(1) by simp
    moreover have "power_int 2 (?e - 1) \<le> x" using e(2) p [of ?e] by linarith
    moreover have "x < power_int 2 (?e - 1 + 1)"
      using e(3) p [of "?e + 1"] by simp
    ultimately show ?thesis by (simp only: s)
  next
    case False
    then have "ilog2_down (2 * x) = 0" by (simp add: ilog2_down.simps [of "2 * x"])
    with False "1.prems" show ?thesis by (simp add: s)
  qed
qed

lemma ilog2_spec:
  assumes "0 < x"
  shows "power_int 2 (ilog2 x) \<le> x" and "x < power_int 2 (ilog2 x + 1)"
  using assms ilog2_up_spec [of x] ilog2_down_spec [of x]
  by (auto simp: ilog2_def not_le)

lemma ilog2_eqI:
  assumes "power_int 2 e \<le> x" "x < power_int 2 (e + 1)"
  shows "ilog2 x = e"
proof -
  have x: "0 < x" using assms(1) zero_less_power_int [of "2 :: real" e] by linarith
  note s = ilog2_spec [OF x]
  show ?thesis
  proof (rule ccontr)
    assume "ilog2 x \<noteq> e"
    then consider "ilog2 x + 1 \<le> e" | "e + 1 \<le> ilog2 x" by linarith
    then show False
    proof cases
      case 1
      then have "power_int (2 :: real) (ilog2 x + 1) \<le> power_int 2 e"
        by (intro power_int_increasing) simp_all
      with s(2) assms(1) show False by linarith
    next
      case 2
      then have "power_int (2 :: real) (e + 1) \<le> power_int 2 (ilog2 x)"
        by (intro power_int_increasing) simp_all
      with s(1) assms(2) show False by linarith
    qed
  qed
qed

lemma ilog2_mono:
  assumes "0 < x" "x \<le> y"
  shows "ilog2 x \<le> ilog2 y"
proof (rule ccontr)
  assume "\<not> ilog2 x \<le> ilog2 y"
  then have "ilog2 y + 1 \<le> ilog2 x" by simp
  then have "power_int (2 :: real) (ilog2 y + 1) \<le> power_int 2 (ilog2 x)"
    by (intro power_int_increasing) simp_all
  moreover have "0 < y" using assms by simp
  ultimately show False
    using ilog2_spec(1) [OF assms(1)] ilog2_spec(2) [OF \<open>0 < y\<close>] assms(2) by linarith
qed

lemma rne_cases: "rne t = \<lfloor>t\<rfloor> \<or> rne t = \<lfloor>t\<rfloor> + 1"
  by (simp add: rne_def Let_def)

lemma rne_error: "\<bar>of_int (rne t) - t\<bar> \<le> 1 / 2"
proof -
  have "of_int \<lfloor>t\<rfloor> \<le> t" "t < of_int \<lfloor>t\<rfloor> + 1" by linarith+
  then show ?thesis by (auto simp: rne_def Let_def)
qed

lemma rne_of_int [simp]: "rne (of_int k) = k"
  by (simp add: rne_def)

lemma rne_mono:
  assumes "s \<le> t"
  shows "rne s \<le> rne t"
proof (cases "\<lfloor>s\<rfloor> = \<lfloor>t\<rfloor>")
  case True
  with assms show ?thesis by (auto simp: rne_def Let_def)
next
  case False
  moreover have "\<lfloor>s\<rfloor> \<le> \<lfloor>t\<rfloor>" using assms by (rule floor_mono)
  ultimately have "\<lfloor>s\<rfloor> + 1 \<le> \<lfloor>t\<rfloor>" by simp
  then show ?thesis using rne_cases [of s] rne_cases [of t] by linarith
qed

subsection \<open>Rounding to a float: sign, monotonicity, relative error\<close>

lemma ulp_pos: "0 < ulp x"
  by (simp add: ulp_def)

lemma fl_pos_eq: "0 < x \<Longrightarrow> fl x = of_int (rne (x / ulp x)) * ulp x"
  by (simp add: fl_def)

lemma fl_0 [simp]: "fl 0 = 0"
  by (simp add: fl_def)

lemma fl_nonneg:
  assumes "0 \<le> x"
  shows "0 \<le> fl x"
proof (cases "x = 0")
  case True
  then show ?thesis by simp
next
  case False
  with assms have x: "0 < x" by simp
  have "rne 0 \<le> rne (x / ulp x)"
    using x ulp_pos [of x] by (intro rne_mono) simp
  moreover have "rne 0 = 0" using rne_of_int [of 0] by simp
  ultimately show ?thesis using ulp_pos [of x] by (simp add: fl_pos_eq [OF x])
qed

lemma expo_mono:
  assumes "0 < x" "x \<le> y"
  shows "expo x \<le> expo y"
  using ilog2_mono [OF assms] assms by (simp add: expo_def)

lemma power_int_2_split: "power_int (2 :: real) (a + b) = power_int 2 a * power_int 2 b"
  by (simp add: power_int_add)

lemma binade_as_ulps:
  "power_int 2 (expo x) = 2 ^ 52 * ulp x" "power_int 2 (expo x + 1) = 2 ^ 53 * ulp x"
proof -
  have "power_int (2 :: real) (expo x) = power_int 2 ((expo x - 52) + int 52)"
    "power_int (2 :: real) (expo x + 1) = power_int 2 ((expo x - 52) + int 53)"
    by (rule arg_cong [where f = "power_int 2"], simp)+
  then show "power_int 2 (expo x) = 2 ^ 52 * ulp x" "power_int 2 (expo x + 1) = 2 ^ 53 * ulp x"
    by (simp_all only: power_int_2_split power_int_of_nat ulp_def mult.commute)
qed

lemma fl_le_next_binade:
  assumes "0 < x"
  shows "fl x \<le> power_int 2 (expo x + 1)"
proof -
  have "x < power_int 2 (ilog2 x + 1)" by (rule ilog2_spec(2) [OF assms])
  also have "\<dots> \<le> power_int 2 (expo x + 1)"
    using assms by (intro power_int_increasing) (simp_all add: expo_def)
  finally have "x < power_int 2 (expo x + 1)" .
  moreover have "power_int 2 (expo x + 1) = of_int (2 ^ 53) * ulp x"
    using binade_as_ulps(2) [of x] by simp
  ultimately have "x / ulp x \<le> of_int (2 ^ 53)"
    using ulp_pos [of x] by (simp add: field_simps)
  then have "rne (x / ulp x) \<le> rne (of_int (2 ^ 53))" by (rule rne_mono)
  then have "rne (x / ulp x) \<le> 2 ^ 53" by (simp only: rne_of_int)
  then have "real_of_int (rne (x / ulp x)) \<le> real_of_int (2 ^ 53)" by (simp only: of_int_le_iff)
  then have "of_int (rne (x / ulp x)) * ulp x \<le> of_int (2 ^ 53) * ulp x"
    using ulp_pos [of x] by (intro mult_right_mono) simp_all
  with \<open>power_int 2 (expo x + 1) = of_int (2 ^ 53) * ulp x\<close> show ?thesis
    by (simp add: fl_pos_eq [OF assms])
qed

lemma fl_ge_binade:
  assumes "power_int 2 (- 1022) \<le> x"
  shows "power_int 2 (expo x) \<le> fl x"
proof -
  have x: "0 < x" using assms zero_less_power_int [of "2 :: real" "- 1022"] by linarith
  have "ilog2 (power_int 2 (- 1022)) = - 1022"
    by (rule ilog2_eqI) (simp_all add: power_int_2_split)
  with ilog2_mono [OF _ assms] have "- 1022 \<le> ilog2 x" by simp
  then have e: "expo x = ilog2 x" using x by (simp add: expo_def)
  have "power_int 2 (expo x) \<le> x" using ilog2_spec(1) [OF x] e by simp
  moreover have p: "power_int 2 (expo x) = of_int (2 ^ 52) * ulp x"
    using binade_as_ulps(1) [of x] by simp
  ultimately have "of_int (2 ^ 52) \<le> x / ulp x"
    using ulp_pos [of x] by (simp add: field_simps)
  then have "rne (of_int (2 ^ 52)) \<le> rne (x / ulp x)" by (rule rne_mono)
  then have "2 ^ 52 \<le> rne (x / ulp x)" by (simp only: rne_of_int)
  then have "real_of_int (2 ^ 52) \<le> real_of_int (rne (x / ulp x))" by (simp only: of_int_le_iff)
  then have "of_int (2 ^ 52) * ulp x \<le> of_int (rne (x / ulp x)) * ulp x"
    using ulp_pos [of x] by (intro mult_right_mono) simp_all
  with p show ?thesis by (simp add: fl_pos_eq [OF x])
qed

lemma fl_mono:
  assumes "0 \<le> x" "x \<le> y"
  shows "fl x \<le> fl y"
proof (cases "x = 0")
  case True
  with assms fl_nonneg [of y] show ?thesis by simp
next
  case False
  with assms have x: "0 < x" and y: "0 < y" by simp_all
  have le: "expo x \<le> expo y" by (rule expo_mono [OF x assms(2)])
  show ?thesis
  proof (cases "expo x = expo y")
    case True
    then have u: "ulp x = ulp y" by (simp add: ulp_def)
    have "x / ulp y \<le> y / ulp y"
      using assms(2) ulp_pos [of y] by (simp add: divide_right_mono)
    then have "rne (x / ulp y) \<le> rne (y / ulp y)" by (rule rne_mono)
    then have "real_of_int (rne (x / ulp y)) * ulp y \<le> real_of_int (rne (y / ulp y)) * ulp y"
      using ulp_pos [of y] by (intro mult_right_mono) simp_all
    then show ?thesis by (simp add: fl_pos_eq [OF x] fl_pos_eq [OF y] u)
  next
    case False
    with le have lt: "expo x + 1 \<le> expo y" by simp
    then have "- 1022 < expo y" by (simp add: expo_def)
    then have "- 1022 \<le> ilog2 y" using y by (simp add: expo_def)
    then have "power_int (2 :: real) (- 1022) \<le> power_int 2 (ilog2 y)"
      by (intro power_int_increasing) simp_all
    with ilog2_spec(1) [OF y] have "power_int 2 (- 1022) \<le> y" by linarith
    from fl_ge_binade [OF this] have "power_int 2 (expo y) \<le> fl y" .
    moreover have "power_int (2 :: real) (expo x + 1) \<le> power_int 2 (expo y)"
      using lt by (intro power_int_increasing) simp_all
    ultimately show ?thesis using fl_le_next_binade [OF x] by linarith
  qed
qed

lemma fl_error:
  assumes "power_int 2 (- 1022) \<le> x"
  shows "\<bar>fl x - x\<bar> \<le> x / 2 ^ 53"
proof -
  have x: "0 < x" using assms zero_less_power_int [of "2 :: real" "- 1022"] by linarith
  have "ilog2 (power_int 2 (- 1022)) = - 1022"
    by (rule ilog2_eqI) (simp_all add: power_int_2_split)
  with ilog2_mono [OF _ assms] have "- 1022 \<le> ilog2 x" by simp
  then have e: "expo x = ilog2 x" using x by (simp add: expo_def)
  have b: "power_int 2 (expo x) \<le> x" using ilog2_spec(1) [OF x] e by simp
  have p: "power_int 2 (expo x) = 2 ^ 52 * ulp x"
    by (rule binade_as_ulps(1))
  have "fl x - x = (of_int (rne (x / ulp x)) - x / ulp x) * ulp x"
    using ulp_pos [of x] by (simp add: fl_pos_eq [OF x] left_diff_distrib)
  then have "\<bar>fl x - x\<bar> = \<bar>of_int (rne (x / ulp x)) - x / ulp x\<bar> * ulp x"
    using ulp_pos [of x] by (simp add: abs_mult)
  also have "\<dots> \<le> (1 / 2) * ulp x"
    using ulp_pos [of x] rne_error [of "x / ulp x"] by (intro mult_right_mono) simp_all
  also have "\<dots> = power_int 2 (expo x) / 2 ^ 53" by (simp add: p)
  also have "\<dots> \<le> x / 2 ^ 53" using b by (simp add: divide_right_mono)
  finally show ?thesis .
qed

lemma fl_pow2:
  assumes "- 1074 \<le> k"
  shows "fl (power_int 2 k) = power_int 2 k"
proof -
  let ?x = "power_int 2 k :: real"
  have x: "0 < ?x" by simp
  have "ilog2 ?x = k" by (rule ilog2_eqI) (simp_all add: power_int_2_split)
  then have e: "expo ?x = max k (- 1022)" by (simp add: expo_def)
  define n where "n = nat (k - expo ?x + 52)"
  have n: "int n = k - expo ?x + 52" using assms by (simp add: n_def e)
  have "k = (expo ?x - 52) + int n" using n by simp
  then have "?x = power_int 2 ((expo ?x - 52) + int n)" by simp
  then have s: "?x = 2 ^ n * ulp ?x"
    by (simp only: power_int_2_split power_int_of_nat ulp_def mult.commute)
  then have "?x / ulp ?x = of_int (2 ^ n)"
    using ulp_pos [of ?x] by (simp add: field_simps)
  then have "rne (?x / ulp ?x) = 2 ^ n" by (simp only: rne_of_int)
  then have "fl ?x = 2 ^ n * ulp ?x" by (simp add: fl_pos_eq [OF x])
  with s show ?thesis by simp
qed

lemma f64_bounded:
  assumes "0 \<le> x" "x \<le> power_int 2 k" "- 1074 \<le> k" "k \<le> 1023"
  shows "f64 x = Some (fl x)" and "fl x \<le> power_int 2 k"
proof -
  show le: "fl x \<le> power_int 2 k"
    using fl_mono [OF assms(1,2)] fl_pow2 [OF assms(3)] by simp
  have "power_int (2 :: real) k \<le> power_int 2 1023"
    using assms(4) by (intro power_int_increasing) simp_all
  also have "\<dots> < 2 ^ 1024" by simp
  finally have "fl x < 2 ^ 1024" using le by linarith
  moreover have "0 \<le> fl x" by (rule fl_nonneg [OF assms(1)])
  ultimately show "f64 x = Some (fl x)" by (simp add: f64_def)
qed

lemma fl_ge_pow2:
  assumes "power_int 2 k \<le> x" "- 1074 \<le> k"
  shows "power_int 2 k \<le> fl x"
  using fl_mono [OF _ assms(1)] fl_pow2 [OF assms(2)] by simp

lemma pow2_neg: "power_int (2 :: real) (- int n) = 1 / 2 ^ n"
  by (simp add: power_int_minus field_simps)

lemma fl_rel:
  assumes "1 / 2 ^ 1022 \<le> x" "x \<le> 2 ^ 1023"
  shows "f64 x = Some (fl x)" and "x * (1 - 1 / 2 ^ 53) \<le> fl x" and "fl x \<le> x * (1 + 1 / 2 ^ 53)"
proof -
  have x0: "0 \<le> x" using assms(1) by (simp add: order_trans [OF _ assms(1)])
  have "x \<le> power_int 2 1023" using assms(2) by simp
  from f64_bounded(1) [OF x0 this] show "f64 x = Some (fl x)" by simp
  have "power_int 2 (- int 1022) \<le> x" using assms(1) by (simp only: pow2_neg)
  then have "power_int 2 (- 1022) \<le> x" by simp
  from fl_error [OF this] have e: "\<bar>fl x - x\<bar> \<le> x / 2 ^ 53" .
  then have a: "x - x / 2 ^ 53 \<le> fl x" "fl x \<le> x + x / 2 ^ 53" by linarith+
  from a(1) show "x * (1 - 1 / 2 ^ 53) \<le> fl x" by (simp add: right_diff_distrib)
  from a(2) show "fl x \<le> x * (1 + 1 / 2 ^ 53)" by (simp add: distrib_left)
qed

text \<open>
  Evaluation on concrete floats: the definitions unfold on numerals; the congruence
  rule keeps the simplifier out of the rest of a computation until the operation in
  front has a value.
\<close>

lemmas f64_eval = fl_def ulp_def expo_def ilog2_def ilog2_up.simps ilog2_down.simps rne_def Let_def
  f64_def fadd_def fsub_def fmul_def fdiv_def monthly_budget_def w_eq_def

lemma bind_weak_cong: "m = m' \<Longrightarrow> Option.bind m f = Option.bind m' f"
  by simp

lemma fl_one_plus: "fl (1 + 1 / 2 ^ 52) = 1 + 1 / 2 ^ 52"
  by (simp add: f64_eval)

lemma fl_one_minus: "fl (1 - 1 / 2 ^ 53) = 1 - 1 / 2 ^ 53"
  by (simp add: f64_eval)

lemma supply_ratio_f64: "fdiv 120000000 19700000 = Some (6858273544219029 / 2 ^ 50)"
  by (simp add: f64_eval)

lemma half_budget: "fmul monthly_budget w_eq = Some 250"
  by (simp add: f64_eval)

subsection \<open>Market-cap weights in binary64\<close>

lemma mc_ratio_cex: "f64_mc_ratio (10 ^ 18) 1 = Some (123547672712599 / 2 ^ 104)"
  by (simp add: f64_mc_ratio_def f64_supply_ratio_def f64_eval cong: bind_weak_cong)

text \<open>
  C10 as stated fails on the code: with the positive prices BTC = 1e18 and ETH = 1
  the computed ratio is about 6.09e-18, \<open>1 + mc_ratio\<close> rounds to 1, and the weights
  are exactly 1 and 0; the whole budget goes to BTC and the ETH quantity bought is 0.
\<close>

theorem market_cap_weights_float_counterexample:
  "f64_mc_weights (10 ^ 18) 1 = Some (1, 0)
   \<and> f64_mc_purchase (10 ^ 18) 1 = Some (2535301200456459 / 2 ^ 102, 0)"
proof -
  have w: "f64_mc_weights (10 ^ 18) 1 = Some (1, 0)"
    by (simp add: f64_mc_weights_def mc_ratio_cex [simplified] cong: bind_weak_cong)
      (simp add: f64_eval cong: bind_weak_cong)
  have "f64_mc_purchase (10 ^ 18) 1 = Some (2535301200456459 / 2 ^ 102, 0)"
    by (simp add: f64_mc_purchase_def w [simplified] cong: bind_weak_cong)
      (simp add: f64_eval cong: bind_weak_cong)
  with w show ?thesis by simp
qed

lemma weight_in_unit_interval:
  assumes "1 / 2 ^ 53 \<le> x" "x \<le> 1 - 1 / 2 ^ 53"
  shows "f64 x = Some (fl x)" and "1 / 2 ^ 53 \<le> fl x" and "fl x \<le> 1 - 1 / 2 ^ 53"
proof -
  have x0: "0 \<le> x" using assms(1) by (simp add: order_trans [OF _ assms(1)])
  have "x \<le> power_int 2 0" using assms(2) by simp
  from f64_bounded(1) [OF x0 this] show "f64 x = Some (fl x)" by simp
  have "power_int 2 (- int 53) \<le> x" using assms(1) by (simp only: pow2_neg)
  from fl_ge_pow2 [OF this] show "1 / 2 ^ 53 \<le> fl x" by (simp only: pow2_neg)
  from fl_mono [OF x0 assms(2)] show "fl x \<le> 1 - 1 / 2 ^ 53" by (simp only: fl_one_minus)
qed

lemma purchase_positive:
  assumes "1 / 2 ^ 53 \<le> w" "w \<le> 1" "1 / 2 ^ 1000 \<le> p" "p \<le> 2 ^ 1000"
  shows "\<exists>a q. fmul monthly_budget w = Some a \<and> fdiv a p = Some q \<and> 0 < q"
proof -
  have p0: "0 < p" using assms(3) by (simp add: less_le_trans [OF _ assms(3)])
  have w0: "0 \<le> 500 * w" using assms(1) by (simp add: order_trans [OF _ assms(1)])
  have "500 * w \<le> power_int 2 9" using assms(2) by simp
  from f64_bounded [OF w0 this]
  have a: "fmul monthly_budget w = Some (fl (500 * w))" and au: "fl (500 * w) \<le> 2 ^ 9"
    by (simp_all add: fmul_def monthly_budget_def)
  have "power_int 2 (- int 53) \<le> 500 * w" using assms(1) by (simp only: pow2_neg) simp
  from fl_ge_pow2 [OF this] have al: "1 / 2 ^ 53 \<le> fl (500 * w)" by (simp only: pow2_neg)
  let ?a = "fl (500 * w)"
  have a0: "0 \<le> ?a / p" using al p0 by (simp add: order_trans [OF _ al])
  have "?a / p \<le> 2 ^ 9 / (1 / 2 ^ 1000)"
    using au al assms(3) p0 by (intro frac_le) simp_all
  also have "\<dots> = power_int 2 1009" by simp
  finally have qu: "?a / p \<le> power_int 2 1009" .
  have "(1 / 2 ^ 53) / 2 ^ 1000 \<le> ?a / p"
    using al assms(4) p0 by (intro frac_le) simp_all
  moreover have "(1 / 2 ^ 53) / 2 ^ 1000 = power_int (2 :: real) (- int 1053)"
    by (simp only: pow2_neg) simp
  ultimately have ql: "power_int 2 (- int 1053) \<le> ?a / p" by simp
  from f64_bounded(1) [OF a0 qu] p0 have q: "fdiv ?a p = Some (fl (?a / p))"
    by (simp add: fdiv_def)
  from fl_ge_pow2 [OF ql] have "0 < fl (?a / p)"
    using zero_less_power_int [of "2 :: real" "- int 1053"] by linarith
  with a q show ?thesis by simp
qed

text \<open>
  C10, amended: for prices between \<open>2^-1000\<close> and \<open>2^1000\<close>, at every step where the
  computed \<open>mc_ratio\<close> lies between \<open>2^-52\<close> and \<open>2^52\<close>, no operation leaves the
  finite floats, both market-cap weights lie strictly between 0 and 1, and the
  quantities bought of both assets are strictly positive.
\<close>

theorem f64_market_cap_weights_strictly_inside:
  assumes "1 / 2 ^ 1000 \<le> p_btc" "p_btc \<le> 2 ^ 1000"
    and "1 / 2 ^ 1000 \<le> p_eth" "p_eth \<le> 2 ^ 1000"
    and "f64_mc_ratio p_btc p_eth = Some mc" "1 / 2 ^ 52 \<le> mc" "mc \<le> 2 ^ 52"
  shows "\<exists>w_b w_e q_b q_e.
           f64_mc_weights p_btc p_eth = Some (w_b, w_e)
           \<and> 0 < w_b \<and> w_b < 1 \<and> 0 < w_e \<and> w_e < 1
           \<and> f64_mc_purchase p_btc p_eth = Some (q_b, q_e) \<and> 0 < q_b \<and> 0 < q_e"
proof -
  let ?s = "fl (1 + mc)"
  have m0: "0 \<le> 1 + mc" using assms(6) by (simp add: add_nonneg_nonneg order_trans [OF _ assms(6)])
  have "1 + mc \<le> power_int 2 53" using assms(7) by simp
  from f64_bounded [OF m0 this]
  have s: "fadd 1 mc = Some ?s" and su: "?s \<le> 2 ^ 53" by (simp_all add: fadd_def)
  have "1 + 1 / 2 ^ 52 \<le> 1 + mc" using assms(6) by simp
  from fl_mono [OF _ this] have sl: "1 + 1 / 2 ^ 52 \<le> ?s" by (simp only: fl_one_plus) simp
  then have s0: "0 < ?s" by (simp add: less_le_trans [OF _ sl])
  let ?wb = "fl (1 / ?s)"
  have "1 / 2 ^ 53 \<le> 1 / ?s" using su s0 by (intro divide_left_mono) simp_all
  moreover have "1 / ?s \<le> 1 / (1 + 1 / 2 ^ 52)" using sl by (intro divide_left_mono) simp_all
  moreover have "1 / (1 + 1 / 2 ^ 52) \<le> (1 - 1 / 2 ^ 53 :: real)" by simp
  ultimately have x2: "1 / 2 ^ 53 \<le> 1 / ?s" "1 / ?s \<le> 1 - 1 / 2 ^ 53" by linarith+
  note wb = weight_in_unit_interval [OF x2]
  have wbs: "fdiv 1 ?s = Some ?wb" using wb(1) s0 by (simp add: fdiv_def)
  let ?we = "fl (1 - ?wb)"
  have x3: "1 / 2 ^ 53 \<le> 1 - ?wb" "1 - ?wb \<le> 1 - 1 / 2 ^ 53" using wb(2,3) by linarith+
  note we = weight_in_unit_interval [OF x3]
  have wes: "fsub 1 ?wb = Some ?we" using we(1) by (simp add: fsub_def)
  have W: "f64_mc_weights p_btc p_eth = Some (?wb, ?we)"
    by (simp add: f64_mc_weights_def assms(5) s wbs wes)
  have wb1: "?wb \<le> 1" "?we \<le> 1" using wb(3) we(3) by simp_all
  from purchase_positive [OF wb(2) wb1(1) assms(1,2)]
  obtain a qb where qb: "fmul monthly_budget ?wb = Some a" "fdiv a p_btc = Some qb" "0 < qb" by blast
  from purchase_positive [OF we(2) wb1(2) assms(3,4)]
  obtain b qe where qe: "fmul monthly_budget ?we = Some b" "fdiv b p_eth = Some qe" "0 < qe" by blast
  have P: "f64_mc_purchase p_btc p_eth = Some (qb, qe)"
    by (simp add: f64_mc_purchase_def W qb qe)
  have "0 < ?wb" "?wb < 1" "0 < ?we" "?we < 1"
    using wb(2,3) we(2,3) by (simp_all add: less_le_trans [OF _ wb(2)] less_le_trans [OF _ we(2)]
        le_less_trans [OF wb(3)] le_less_trans [OF we(3)])
  with W P qb(3) qe(3) show ?thesis by blast
qed

theorem f64_market_cap_weights_strictly_inside_witness:
  "1 / 2 ^ 1000 \<le> (110 :: real) \<and> (110 :: real) \<le> 2 ^ 1000
   \<and> 1 / 2 ^ 1000 \<le> (40 :: real) \<and> (40 :: real) \<le> 2 ^ 1000
   \<and> f64_mc_ratio 110 40 = Some (2493917652443283 / 2 ^ 50)
   \<and> 1 / 2 ^ 52 \<le> (2493917652443283 / 2 ^ 50 :: real)
   \<and> (2493917652443283 / 2 ^ 50 :: real) \<le> 2 ^ 52
   \<and> f64_mc_weights 110 40 = Some (5603157969003511 / 2 ^ 54, 1551405067559809 / 2 ^ 51)
   \<and> f64_mc_purchase 110 40 = Some (6367224964776717 / 2 ^ 52, 4848140836124403 / 2 ^ 49)
   \<and> (\<exists>w_b w_e q_b q_e.
         f64_mc_weights 110 40 = Some (w_b, w_e)
         \<and> 0 < w_b \<and> w_b < 1 \<and> 0 < w_e \<and> w_e < 1
         \<and> f64_mc_purchase 110 40 = Some (q_b, q_e) \<and> 0 < q_b \<and> 0 < q_e)"
proof -
  have r: "f64_mc_ratio 110 40 = Some (2493917652443283 / 2 ^ 50)"
    by (simp add: f64_mc_ratio_def f64_supply_ratio_def f64_eval cong: bind_weak_cong)
  have w: "f64_mc_weights 110 40 = Some (5603157969003511 / 2 ^ 54, 1551405067559809 / 2 ^ 51)"
    by (simp add: f64_mc_weights_def r [simplified] cong: bind_weak_cong)
      (simp add: f64_eval cong: bind_weak_cong)
  have p: "f64_mc_purchase 110 40 = Some (6367224964776717 / 2 ^ 52, 4848140836124403 / 2 ^ 49)"
    by (simp add: f64_mc_purchase_def w [simplified] cong: bind_weak_cong)
      (simp add: f64_eval cong: bind_weak_cong)
  have b: "1 / 2 ^ 1000 \<le> (110 :: real)" "(110 :: real) \<le> 2 ^ 1000"
    "1 / 2 ^ 1000 \<le> (40 :: real)" "(40 :: real) \<le> 2 ^ 1000"
    "1 / 2 ^ 52 \<le> (2493917652443283 / 2 ^ 50 :: real)"
    "(2493917652443283 / 2 ^ 50 :: real) \<le> 2 ^ 52"
    by simp_all
  from f64_market_cap_weights_strictly_inside [OF b(1-4) r b(5,6)] r w p b
  show ?thesis by blast
qed

subsection \<open>Equal weights at a constant price in binary64\<close>

text \<open>
  The equal-weight loop on twelve rows with both prices 3, one iteration at a time.
\<close>

lemma eq_loop_at_3_1:
  "f64_eq_loop [3, 3, 3, 3, 3, 3, 3, 3, 3, 3, 3, 3] [3, 3, 3, 3, 3, 3, 3, 3, 3, 3, 3, 3] 1 = Some (5864062014805333 / 2 ^ 46, 5864062014805333 / 2 ^ 46, [500])"
proof -
  have n: "(1 :: nat) = Suc 0" by simp
  show ?thesis
    unfolding n f64_eq_loop.simps
    by (simp cong: bind_weak_cong) (simp add: f64_eval cong: bind_weak_cong)
qed

lemma eq_loop_at_3_2:
  "f64_eq_loop [3, 3, 3, 3, 3, 3, 3, 3, 3, 3, 3, 3] [3, 3, 3, 3, 3, 3, 3, 3, 3, 3, 3, 3] 2 = Some (5864062014805333 / 2 ^ 45, 5864062014805333 / 2 ^ 45, [500, 1000])"
proof -
  have n: "(2 :: nat) = Suc 1" by simp
  show ?thesis
    unfolding n f64_eq_loop.simps eq_loop_at_3_1
    by (simp cong: bind_weak_cong) (simp add: f64_eval cong: bind_weak_cong)
qed

lemma eq_loop_at_3_3:
  "f64_eq_loop [3, 3, 3, 3, 3, 3, 3, 3, 3, 3, 3, 3] [3, 3, 3, 3, 3, 3, 3, 3, 3, 3, 3, 3] 3 = Some (250, 250, [500, 1000, 1500])"
proof -
  have n: "(3 :: nat) = Suc 2" by simp
  show ?thesis
    unfolding n f64_eq_loop.simps eq_loop_at_3_2
    by (simp cong: bind_weak_cong) (simp add: f64_eval cong: bind_weak_cong)
qed

lemma eq_loop_at_3_4:
  "f64_eq_loop [3, 3, 3, 3, 3, 3, 3, 3, 3, 3, 3, 3] [3, 3, 3, 3, 3, 3, 3, 3, 3, 3, 3, 3] 4 = Some (5864062014805333 / 2 ^ 44, 5864062014805333 / 2 ^ 44, [500, 1000, 1500, 2000])"
proof -
  have n: "(4 :: nat) = Suc 3" by simp
  show ?thesis
    unfolding n f64_eq_loop.simps eq_loop_at_3_3
    by (simp cong: bind_weak_cong) (simp add: f64_eval cong: bind_weak_cong)
qed

lemma eq_loop_at_3_5:
  "f64_eq_loop [3, 3, 3, 3, 3, 3, 3, 3, 3, 3, 3, 3] [3, 3, 3, 3, 3, 3, 3, 3, 3, 3, 3, 3] 5 = Some (3665038759253333 / 2 ^ 43, 3665038759253333 / 2 ^ 43, [500, 1000, 1500, 2000, 2500])"
proof -
  have n: "(5 :: nat) = Suc 4" by simp
  show ?thesis
    unfolding n f64_eq_loop.simps eq_loop_at_3_4
    by (simp cong: bind_weak_cong) (simp add: f64_eval cong: bind_weak_cong)
qed

lemma eq_loop_at_3_6:
  "f64_eq_loop [3, 3, 3, 3, 3, 3, 3, 3, 3, 3, 3, 3] [3, 3, 3, 3, 3, 3, 3, 3, 3, 3, 3, 3] 6 = Some (8796093022207999 / 2 ^ 44, 8796093022207999 / 2 ^ 44, [500, 1000, 1500, 2000, 2500, 6597069766655999 / 2 ^ 41])"
proof -
  have n: "(6 :: nat) = Suc 5" by simp
  show ?thesis
    unfolding n f64_eq_loop.simps eq_loop_at_3_5
    by (simp cong: bind_weak_cong) (simp add: f64_eval cong: bind_weak_cong)
qed

lemma eq_loop_at_3_7:
  "f64_eq_loop [3, 3, 3, 3, 3, 3, 3, 3, 3, 3, 3, 3] [3, 3, 3, 3, 3, 3, 3, 3, 3, 3, 3, 3] 7 = Some (2565527131477333 / 2 ^ 42, 2565527131477333 / 2 ^ 42, [500, 1000, 1500, 2000, 2500, 6597069766655999 / 2 ^ 41, 7696581394431999 / 2 ^ 41])"
proof -
  have n: "(7 :: nat) = Suc 6" by simp
  show ?thesis
    unfolding n f64_eq_loop.simps eq_loop_at_3_6
    by (simp cong: bind_weak_cong) (simp add: f64_eval cong: bind_weak_cong)
qed

lemma eq_loop_at_3_8:
  "f64_eq_loop [3, 3, 3, 3, 3, 3, 3, 3, 3, 3, 3, 3] [3, 3, 3, 3, 3, 3, 3, 3, 3, 3, 3, 3] 8 = Some (5864062014805333 / 2 ^ 43, 5864062014805333 / 2 ^ 43, [500, 1000, 1500, 2000, 2500, 6597069766655999 / 2 ^ 41, 7696581394431999 / 2 ^ 41, 4000])"
proof -
  have n: "(8 :: nat) = Suc 7" by simp
  show ?thesis
    unfolding n f64_eq_loop.simps eq_loop_at_3_7
    by (simp cong: bind_weak_cong) (simp add: f64_eval cong: bind_weak_cong)
qed

lemma eq_loop_at_3_9:
  "f64_eq_loop [3, 3, 3, 3, 3, 3, 3, 3, 3, 3, 3, 3] [3, 3, 3, 3, 3, 3, 3, 3, 3, 3, 3, 3] 9 = Some (750, 750, [500, 1000, 1500, 2000, 2500, 6597069766655999 / 2 ^ 41, 7696581394431999 / 2 ^ 41, 4000, 4500])"
proof -
  have n: "(9 :: nat) = Suc 8" by simp
  show ?thesis
    unfolding n f64_eq_loop.simps eq_loop_at_3_8
    by (simp cong: bind_weak_cong) (simp add: f64_eval cong: bind_weak_cong)
qed

lemma eq_loop_at_3_10:
  "f64_eq_loop [3, 3, 3, 3, 3, 3, 3, 3, 3, 3, 3, 3] [3, 3, 3, 3, 3, 3, 3, 3, 3, 3, 3, 3] 10 = Some (7330077518506667 / 2 ^ 43, 7330077518506667 / 2 ^ 43, [500, 1000, 1500, 2000, 2500, 6597069766655999 / 2 ^ 41, 7696581394431999 / 2 ^ 41, 4000, 4500, 5000])"
proof -
  have n: "(10 :: nat) = Suc 9" by simp
  show ?thesis
    unfolding n f64_eq_loop.simps eq_loop_at_3_9
    by (simp cong: bind_weak_cong) (simp add: f64_eval cong: bind_weak_cong)
qed

lemma eq_loop_at_3_11:
  "f64_eq_loop [3, 3, 3, 3, 3, 3, 3, 3, 3, 3, 3, 3] [3, 3, 3, 3, 3, 3, 3, 3, 3, 3, 3, 3] 11 = Some (4031542635178667 / 2 ^ 42, 4031542635178667 / 2 ^ 42, [500, 1000, 1500, 2000, 2500, 6597069766655999 / 2 ^ 41, 7696581394431999 / 2 ^ 41, 4000, 4500, 5000, 5500])"
proof -
  have n: "(11 :: nat) = Suc 10" by simp
  show ?thesis
    unfolding n f64_eq_loop.simps eq_loop_at_3_10
    by (simp cong: bind_weak_cong) (simp add: f64_eval cong: bind_weak_cong)
qed

lemma eq_loop_at_3_12:
  "f64_eq_loop [3, 3, 3, 3, 3, 3, 3, 3, 3, 3, 3, 3] [3, 3, 3, 3, 3, 3, 3, 3, 3, 3, 3, 3] 12 = Some (8796093022208001 / 2 ^ 43, 8796093022208001 / 2 ^ 43, [500, 1000, 1500, 2000, 2500, 6597069766655999 / 2 ^ 41, 7696581394431999 / 2 ^ 41, 4000, 4500, 5000, 5500, 6597069766656001 / 2 ^ 40])"
proof -
  have n: "(12 :: nat) = Suc 11" by simp
  show ?thesis
    unfolding n f64_eq_loop.simps eq_loop_at_3_11
    by (simp cong: bind_weak_cong) (simp add: f64_eval cong: bind_weak_cong)
qed

text \<open>
  C7 as stated fails on the code: with both prices 3 in all 12 rows the last
  equal-weight value is \<open>6000 + 2^-40\<close> (printed as 6000.000000000001), not the 6000
  invested.
\<close>

theorem equal_weight_float_counterexample:
  "positive_prices [(3, 3), (3, 3), (3, 3), (3, 3), (3, 3), (3, 3), (3, 3), (3, 3), (3, 3), (3, 3), (3, 3), (3, 3)]
   \<and> main [(3, 3), (3, 3), (3, 3), (3, 3), (3, 3), (3, 3), (3, 3), (3, 3), (3, 3), (3, 3), (3, 3), (3, 3)] \<noteq> Inl not_enough_data
   \<and> map_option last (f64_eq_values [(3, 3), (3, 3), (3, 3), (3, 3), (3, 3), (3, 3), (3, 3), (3, 3), (3, 3), (3, 3), (3, 3), (3, 3)]) = Some (6000 + 1 / 2 ^ 40)
   \<and> total_invested 12 = 6000
   \<and> (6000 + 1 / 2 ^ 40 :: real) \<noteq> 6000"
proof -
  let ?df = "[(3, 3), (3, 3), (3, 3), (3, 3), (3, 3), (3, 3), (3, 3), (3, 3), (3, 3), (3, 3), (3, 3), (3, 3)] :: (real \<times> real) list"
  have l: "length ?df = 12" by simp
  have m: "map fst ?df = [3, 3, 3, 3, 3, 3, 3, 3, 3, 3, 3, 3]" "map snd ?df = [3, 3, 3, 3, 3, 3, 3, 3, 3, 3, 3, 3]"
    by simp_all
  have "map_option last (f64_eq_values ?df) = Some (6000 + 1 / 2 ^ 40)"
    unfolding f64_eq_values_def l m eq_loop_at_3_12 by simp
  moreover have "positive_prices ?df" by (simp add: positive_prices_def)
  moreover have "main ?df \<noteq> Inl not_enough_data" by (simp add: main_def)
  moreover have "total_invested 12 = 6000" by (simp add: total_invested_def monthly_budget_def)
  ultimately show ?thesis by simp
qed

lemma pow_upper:
  fixes u :: real
  assumes "0 \<le> u" "2 * real m * u \<le> 1"
  shows "(1 + u) ^ m \<le> 1 + 2 * real m * u"
  using assms(2)
proof (induction m)
  case 0
  show ?case by simp
next
  case (Suc m)
  have s: "2 * real m * u \<le> 1" using Suc.prems assms(1) by (simp add: algebra_simps)
  from Suc.IH [OF s] have "(1 + u) ^ m * (1 + u) \<le> (1 + 2 * real m * u) * (1 + u)"
    using assms(1) by (intro mult_right_mono) simp_all
  also have "\<dots> = 1 + 2 * real m * u + u + (2 * real m * u) * u" by (simp add: algebra_simps)
  also have "\<dots> \<le> 1 + 2 * real m * u + u + 1 * u"
    using s assms(1) by (intro add_left_mono mult_right_mono) simp_all
  also have "\<dots> = 1 + 2 * real (Suc m) * u" by (simp add: algebra_simps)
  finally show ?case by (simp add: mult.commute)
qed

lemma pow_lower:
  fixes u :: real
  assumes "0 \<le> u" "u \<le> 1"
  shows "1 - real m * u \<le> (1 - u) ^ m"
proof (induction m)
  case 0
  show ?case by simp
next
  case (Suc m)
  have p: "0 \<le> (1 - u) ^ m" using assms by simp
  show ?case
  proof (cases "0 \<le> 1 - real m * u")
    case True
    have "1 - real (Suc m) * u \<le> (1 - real m * u) * (1 - u)"
      using assms(1) by (simp add: algebra_simps)
    also have "\<dots> \<le> (1 - u) ^ m * (1 - u)"
      using Suc.IH assms by (intro mult_right_mono) simp_all
    finally show ?thesis by (simp add: mult.commute)
  next
    case False
    then have "1 - real (Suc m) * u \<le> 0" using assms(1) by (simp add: algebra_simps)
    also have "0 \<le> (1 - u) ^ Suc m" using assms by simp
    finally show ?thesis .
  qed
qed

lemma cum_upper:
  fixes h q c U :: real
  assumes "h \<le> real k * c * U ^ (k + 1)" "q \<le> c * U" "1 \<le> U" "0 \<le> c" "h' \<le> (h + q) * U"
  shows "h' \<le> real (Suc k) * c * U ^ (Suc k + 1)"
proof -
  have "U \<le> U ^ (k + 1)" using assms(3) by (simp add: self_le_power)
  then have "c * U \<le> c * U ^ (k + 1)" using assms(4) by (rule mult_left_mono)
  with assms(1,2) have "h + q \<le> real k * c * U ^ (k + 1) + c * U ^ (k + 1)" by linarith
  also have "\<dots> = real (Suc k) * c * U ^ (k + 1)" by (simp add: algebra_simps)
  finally have "(h + q) * U \<le> real (Suc k) * c * U ^ (k + 1) * U"
    using assms(3) by (intro mult_right_mono) simp_all
  with assms(5) show ?thesis by (simp add: algebra_simps)
qed

lemma cum_lower:
  fixes h q c L :: real
  assumes "real k * c * L ^ (k + 1) \<le> h" "c * L \<le> q" "0 \<le> L" "L \<le> 1" "0 \<le> c"
    "(h + q) * L \<le> h'"
  shows "real (Suc k) * c * L ^ (Suc k + 1) \<le> h'"
proof -
  have "L ^ k \<le> 1" using assms(3,4) by (rule power_le_one)
  then have "L * L ^ k \<le> L * 1" using assms(3) by (rule mult_left_mono)
  then have "L ^ (k + 1) \<le> L" by simp
  then have "c * L ^ (k + 1) \<le> c * L" using assms(5) by (rule mult_left_mono)
  with assms(1,2) have "real k * c * L ^ (k + 1) + c * L ^ (k + 1) \<le> h + q" by linarith
  moreover have "real k * c * L ^ (k + 1) + c * L ^ (k + 1) = real (Suc k) * c * L ^ (k + 1)"
    by (simp add: algebra_simps)
  ultimately have "real (Suc k) * c * L ^ (k + 1) * L \<le> (h + q) * L"
    using assms(3) by (intro mult_right_mono) simp_all
  with assms(6) show ?thesis by (simp add: algebra_simps)
qed

lemma prod3_le:
  fixes a b c :: real
  assumes "0 \<le> a" "a \<le> A" "0 \<le> b" "b \<le> B" "0 \<le> c" "c \<le> C"
  shows "a * b * c \<le> A * B * C"
proof -
  have "a * b \<le> A * B" using assms by (intro mult_mono) simp_all
  moreover have "0 \<le> a * b" using assms by simp
  moreover have "0 \<le> A * B" using assms by (simp add: order_trans [OF assms(1,2)] order_trans [OF assms(3,4)])
  ultimately show ?thesis using assms by (intro mult_mono) simp_all
qed

lemma prod3_ge:
  fixes a b c :: real
  assumes "0 \<le> A" "A \<le> a" "0 \<le> B" "B \<le> b" "0 \<le> C" "C \<le> c"
  shows "A * B * C \<le> a * b * c"
  using prod3_le [OF assms] .

lemma rounding_power_bounds:
  assumes "m \<le> 2 ^ 20 + 4"
  shows "(1 + 1 / 2 ^ 53 :: real) ^ m \<le> 2" and "1 / 2 \<le> (1 - 1 / 2 ^ 53 :: real) ^ m"
    and "1 \<le> (1 + 1 / 2 ^ 53 :: real) ^ m" and "(1 - 1 / 2 ^ 53 :: real) ^ m \<le> 1"
    and "0 \<le> (1 - 1 / 2 ^ 53 :: real) ^ m"
proof -
  from assms have "real m \<le> real (2 ^ 20 + 4)" by (simp only: of_nat_le_iff)
  then have m: "real m \<le> 2 ^ 20 + 4" by simp
  then have "2 * real m * (1 / 2 ^ 53) \<le> 1" by simp
  from pow_upper [OF _ this] have "(1 + 1 / 2 ^ 53 :: real) ^ m \<le> 1 + 2 * real m * (1 / 2 ^ 53)"
    by simp
  also have "\<dots> \<le> 2" using m by simp
  finally show "(1 + 1 / 2 ^ 53 :: real) ^ m \<le> 2" .
  have "1 / 2 \<le> 1 - real m * (1 / 2 ^ 53)" using m by simp
  also have "\<dots> \<le> (1 - 1 / 2 ^ 53) ^ m" by (rule pow_lower) simp_all
  finally show "1 / 2 \<le> (1 - 1 / 2 ^ 53 :: real) ^ m" .
  show "1 \<le> (1 + 1 / 2 ^ 53 :: real) ^ m" by (rule one_le_power) simp
  show "(1 - 1 / 2 ^ 53 :: real) ^ m \<le> 1" by (rule power_le_one) simp_all
  show "0 \<le> (1 - 1 / 2 ^ 53 :: real) ^ m" by simp
qed

lemma unit_quantity:
  assumes "1 / 2 ^ 500 \<le> P" "P \<le> 2 ^ 500"
  shows "fdiv 250 P = Some (fl (250 / P))"
    and "250 / P * (1 - 1 / 2 ^ 53) \<le> fl (250 / P)"
    and "fl (250 / P) \<le> 250 / P * (1 + 1 / 2 ^ 53)"
    and "250 / 2 ^ 500 \<le> 250 / P" and "250 / P \<le> 250 * 2 ^ 500"
proof -
  have p0: "0 < P" using assms(1) by (simp add: less_le_trans [OF _ assms(1)])
  show l: "250 / 2 ^ 500 \<le> 250 / P" using assms(2) p0 by (intro divide_left_mono) simp_all
  have "250 / P \<le> 250 / (1 / 2 ^ 500)" using assms(1) p0 by (intro divide_left_mono) simp_all
  then show u: "250 / P \<le> 250 * 2 ^ 500" by simp
  have a: "1 / 2 ^ 1022 \<le> 250 / P" using l by (rule order_trans [rotated]) simp
  have b: "250 / P \<le> 2 ^ 1023" using u by (rule order_trans) simp
  from fl_rel [OF a b] p0 show "fdiv 250 P = Some (fl (250 / P))"
    "250 / P * (1 - 1 / 2 ^ 53) \<le> fl (250 / P)" "fl (250 / P) \<le> 250 / P * (1 + 1 / 2 ^ 53)"
    by (simp_all add: fdiv_def)
qed

lemma eq_holding_step:
  fixes P h :: real and k :: nat
  assumes P: "1 / 2 ^ 500 \<le> P" "P \<le> 2 ^ 500"
    and k: "k < 2 ^ 20"
    and hl: "real k * (250 / P) * (1 - 1 / 2 ^ 53) ^ (k + 1) \<le> h"
    and hu: "h \<le> real k * (250 / P) * (1 + 1 / 2 ^ 53) ^ (k + 1)"
  shows "fadd h (fl (250 / P)) = Some (fl (h + fl (250 / P)))"
    and "real (Suc k) * (250 / P) * (1 - 1 / 2 ^ 53) ^ (Suc k + 1) \<le> fl (h + fl (250 / P))"
    and "fl (h + fl (250 / P)) \<le> real (Suc k) * (250 / P) * (1 + 1 / 2 ^ 53) ^ (Suc k + 1)"
proof -
  let ?c = "250 / P" and ?q = "fl (250 / P)"
  let ?L = "1 - 1 / 2 ^ 53 :: real" and ?U = "1 + 1 / 2 ^ 53 :: real"
  note q = unit_quantity [OF P]
  have kk: "k + 1 \<le> 2 ^ 20 + 4" using k by simp
  note pw = rounding_power_bounds [OF kk]
  have rk: "real k \<le> 2 ^ 20" using k by (simp add: less_imp_le)
  have c0: "0 \<le> ?c" using q(4) by (rule order_trans [rotated]) simp
  have h0: "0 \<le> h"
  proof -
    have "0 \<le> real k * ?c * ?L ^ (k + 1)" using c0 pw(5) by simp
    with hl show ?thesis by linarith
  qed
  have ql: "250 / 2 ^ 500 * (1 / 2) \<le> ?q"
  proof -
    have "250 / 2 ^ 500 * (1 / 2) \<le> ?c * ?L"
    proof (rule mult_mono)
      show "250 / 2 ^ 500 \<le> ?c" by (rule q(4))
      show "1 / 2 \<le> ?L" by simp
      show "0 \<le> ?c" by (rule c0)
      show "(0 :: real) \<le> 1 / 2" by simp
    qed
    with q(2) show ?thesis by linarith
  qed
  have qu: "?q \<le> 250 * 2 ^ 500 * 2"
  proof -
    have "?c * ?U \<le> 250 * 2 ^ 500 * 2"
    proof (rule mult_mono)
      show "?c \<le> 250 * 2 ^ 500" by (rule q(5))
      show "?U \<le> 2" by simp
      show "(0 :: real) \<le> 250 * 2 ^ 500" by simp
      show "0 \<le> ?U" by simp
    qed
    with q(3) show ?thesis by linarith
  qed
  have hub: "h \<le> 2 ^ 20 * (250 * 2 ^ 500) * 2"
  proof -
    have "real k * ?c * ?U ^ (k + 1) \<le> 2 ^ 20 * (250 * 2 ^ 500) * 2"
      using rk q(5) c0 pw(1) by (intro prod3_le) simp_all
    with hu show ?thesis by linarith
  qed
  have a: "1 / 2 ^ 1022 \<le> h + ?q" using h0 ql by (simp add: add_increasing)
  have b: "h + ?q \<le> 2 ^ 1023" using hub qu by simp
  note r = fl_rel [OF a b]
  show "fadd h ?q = Some (fl (h + ?q))" using r(1) by (simp add: fadd_def)
  show "real (Suc k) * ?c * ?L ^ (Suc k + 1) \<le> fl (h + ?q)"
    using hl q(2) _ _ c0 r(2) by (rule cum_lower) simp_all
  show "fl (h + ?q) \<le> real (Suc k) * ?c * ?U ^ (Suc k + 1)"
    using hu q(3) _ c0 r(3) by (rule cum_upper) simp
qed

lemma eq_value_step:
  fixes P h :: real and K :: nat
  assumes P: "1 / 2 ^ 500 \<le> P" "P \<le> 2 ^ 500"
    and K: "0 < K" "K \<le> 2 ^ 20"
    and hl: "real K * (250 / P) * (1 - 1 / 2 ^ 53) ^ (K + 1) \<le> h"
    and hu: "h \<le> real K * (250 / P) * (1 + 1 / 2 ^ 53) ^ (K + 1)"
  shows "fmul h P = Some (fl (h * P))"
    and "fadd (fl (h * P)) (fl (h * P)) = Some (fl (fl (h * P) + fl (h * P)))"
    and "\<bar>fl (fl (h * P) + fl (h * P)) - 500 * real K\<bar> \<le> 500 * real K * (real K + 3) / 2 ^ 52"
proof -
  define L :: real where "L = 1 - 1 / 2 ^ 53"
  define U :: real where "U = 1 + 1 / 2 ^ 53"
  define x where "x = h * P"
  define T where "T = 500 * real K"
  have LU: "0 \<le> L" "L \<le> 1" "1 / 2 \<le> L" "1 \<le> U" "U \<le> 2" "0 \<le> U"
    by (simp_all add: L_def U_def)
  have p0: "0 < P" using P(1) by (simp add: less_le_trans [OF _ P(1)])
  have k1: "K + 1 \<le> 2 ^ 20 + 4" and k3: "K + 3 \<le> 2 ^ 20 + 4" using K by simp_all
  note pw1 = rounding_power_bounds [OF k1, folded L_def U_def]
  have rK: "1 \<le> real K" "real K \<le> 2 ^ 20" using K by simp_all
  have T0: "0 \<le> T" by (simp add: T_def)
  have cP: "real K * (250 / P) * b * P = 250 * real K * b" for b :: real
    using p0 by simp
  have xl: "250 * real K * L ^ (K + 1) \<le> x"
    using mult_right_mono [OF hl less_imp_le [OF p0]] by (simp only: cP x_def L_def)
  have xu: "x \<le> 250 * real K * U ^ (K + 1)"
    using mult_right_mono [OF hu less_imp_le [OF p0]] by (simp only: cP x_def U_def)
  have xl': "125 \<le> x"
  proof -
    have "250 * 1 * (1 / 2) \<le> 250 * real K * L ^ (K + 1)"
      using rK(1) pw1(2) by (intro prod3_ge) simp_all
    with xl show ?thesis by linarith
  qed
  have xu': "x \<le> 250 * 2 ^ 20 * 2"
  proof -
    have "250 * real K * U ^ (K + 1) \<le> 250 * 2 ^ 20 * 2"
      using rK pw1(1) LU(6) by (intro prod3_le) simp_all
    with xu show ?thesis by linarith
  qed
  have a: "1 / 2 ^ 1022 \<le> x" using xl' by (rule order_trans [rotated]) simp
  have b: "x \<le> 2 ^ 1023" using xu' by (rule order_trans) simp
  note r = fl_rel [OF a b, folded L_def U_def]
  show "fmul h P = Some (fl (h * P))" using r(1) by (simp add: fmul_def x_def)
  define X where "X = fl x"
  have Xl: "x * L \<le> X" and Xu: "X \<le> x * U" using r(2,3) by (simp_all add: X_def)
  have Xl': "125 * (1 / 2) \<le> X"
  proof -
    have "125 * (1 / 2) \<le> x * L"
    proof (rule mult_mono)
      show "125 \<le> x" by (rule xl')
      show "1 / 2 \<le> L" by (rule LU)
      show "0 \<le> x" using xl' by simp
      show "(0 :: real) \<le> 1 / 2" by simp
    qed
    with Xl show ?thesis by linarith
  qed
  have Xu': "X \<le> (250 * 2 ^ 20 * 2) * 2"
  proof -
    have "x * U \<le> (250 * 2 ^ 20 * 2) * 2"
    proof (rule mult_mono)
      show "x \<le> 250 * 2 ^ 20 * 2" by (rule xu')
      show "U \<le> 2" by (rule LU)
      show "(0 :: real) \<le> 250 * 2 ^ 20 * 2" by simp
      show "0 \<le> U" by (rule LU)
    qed
    with Xu show ?thesis by linarith
  qed
  have a2: "1 / 2 ^ 1022 \<le> X + X" using Xl' by simp
  have b2: "X + X \<le> 2 ^ 1023" using Xu' by simp
  note r2 = fl_rel [OF a2 b2, folded L_def U_def]
  show "fadd (fl (h * P)) (fl (h * P)) = Some (fl (fl (h * P) + fl (h * P)))"
    using r2(1) by (simp add: fadd_def X_def x_def)
  define V where "V = fl (X + X)"
  have Vl: "(X + X) * L \<le> V" and Vu: "V \<le> (X + X) * U" using r2(2,3) by (simp_all add: V_def)
  have Vu': "V \<le> T * U ^ (K + 3)"
  proof -
    have "x * U \<le> 250 * real K * U ^ (K + 1) * U"
      using xu LU(6) by (rule mult_right_mono)
    with Xu have "X \<le> 250 * real K * U ^ (K + 1) * U" by linarith
    then have "X + X \<le> 2 * (250 * real K * U ^ (K + 1) * U)" by linarith
    then have "(X + X) * U \<le> 2 * (250 * real K * U ^ (K + 1) * U) * U"
      using LU(6) by (rule mult_right_mono)
    moreover have "2 * (250 * real K * U ^ (K + 1) * U) * U = T * U ^ (K + 3)"
      by (simp add: T_def power_add power3_eq_cube)
    ultimately show ?thesis using Vu by linarith
  qed
  have Vl': "T * L ^ (K + 3) \<le> V"
  proof -
    have "250 * real K * L ^ (K + 1) * L \<le> x * L"
      using xl LU(1) by (rule mult_right_mono)
    with Xl have "250 * real K * L ^ (K + 1) * L \<le> X" by linarith
    then have "2 * (250 * real K * L ^ (K + 1) * L) \<le> X + X" by linarith
    then have "2 * (250 * real K * L ^ (K + 1) * L) * L \<le> (X + X) * L"
      using LU(1) by (rule mult_right_mono)
    moreover have "2 * (250 * real K * L ^ (K + 1) * L) * L = T * L ^ (K + 3)"
      by (simp add: T_def power_add power3_eq_cube)
    ultimately show ?thesis using Vl by linarith
  qed
  have r3: "real (K + 3) \<le> 2 ^ 20 + 4"
  proof -
    from k3 have "real (K + 3) \<le> real (2 ^ 20 + 4)" by (simp only: of_nat_le_iff)
    then show ?thesis by simp
  qed
  have "2 * real (K + 3) * (1 / 2 ^ 53) \<le> (1 :: real)" using r3 by simp
  from pow_upper [OF _ this] have "U ^ (K + 3) \<le> 1 + 2 * real (K + 3) * (1 / 2 ^ 53)"
    by (simp add: U_def)
  from mult_left_mono [OF this T0] Vu'
  have "V \<le> T * (1 + 2 * real (K + 3) * (1 / 2 ^ 53))" by linarith
  also have "\<dots> = T + T * (real K + 3) / 2 ^ 52" by (simp add: algebra_simps)
  finally have U1: "V - T \<le> T * (real K + 3) / 2 ^ 52" by simp
  have "1 - real (K + 3) * (1 / 2 ^ 53) \<le> L ^ (K + 3)"
    unfolding L_def by (rule pow_lower) simp_all
  from mult_left_mono [OF this T0] Vl'
  have "T * (1 - real (K + 3) * (1 / 2 ^ 53)) \<le> V" by linarith
  moreover have "T * (1 - real (K + 3) * (1 / 2 ^ 53)) = T - T * (real K + 3) / 2 ^ 53"
    by (simp add: algebra_simps)
  ultimately have "T - V \<le> T * (real K + 3) / 2 ^ 53" by simp
  moreover have "T * (real K + 3) / 2 ^ 53 \<le> T * (real K + 3) / 2 ^ 52"
    using T0 by (intro divide_left_mono mult_nonneg_nonneg) simp_all
  ultimately have "T - V \<le> T * (real K + 3) / 2 ^ 52" by linarith
  with U1 have "\<bar>V - T\<bar> \<le> T * (real K + 3) / 2 ^ 52" by linarith
  then show "\<bar>fl (fl (h * P) + fl (h * P)) - 500 * real K\<bar> \<le> 500 * real K * (real K + 3) / 2 ^ 52"
    by (simp only: V_def X_def x_def T_def)
qed

lemma eq_loop_invariant:
  assumes P: "1 / 2 ^ 500 \<le> P" "P \<le> 2 ^ 500" and n: "k \<le> n" "n \<le> 2 ^ 20"
  shows "\<exists>h vs. f64_eq_loop (replicate n P) (replicate n P) k = Some (h, h, vs) \<and> length vs = k
           \<and> real k * (250 / P) * (1 - 1 / 2 ^ 53) ^ (k + 1) \<le> h
           \<and> h \<le> real k * (250 / P) * (1 + 1 / 2 ^ 53) ^ (k + 1)
           \<and> (0 < k \<longrightarrow> \<bar>last vs - 500 * real k\<bar> \<le> 500 * real k * (real k + 3) / 2 ^ 52)"
  using n(1)
proof (induction k)
  case 0
  show ?case by simp
next
  case (Suc k)
  then have kn: "k < n" and "k \<le> n" by simp_all
  with n(2) have k: "k < 2 ^ 20" and K: "0 < Suc k" "Suc k \<le> 2 ^ 20" by simp_all
  from Suc.IH [OF \<open>k \<le> n\<close>] obtain h vs where
    l: "f64_eq_loop (replicate n P) (replicate n P) k = Some (h, h, vs)" and len: "length vs = k"
    and hl: "real k * (250 / P) * (1 - 1 / 2 ^ 53) ^ (k + 1) \<le> h"
    and hu: "h \<le> real k * (250 / P) * (1 + 1 / 2 ^ 53) ^ (k + 1)"
    by blast
  define q where "q = fl (250 / P)"
  define h' where "h' = fl (h + q)"
  define x where "x = fl (h' * P)"
  define v where "v = fl (x + x)"
  note q = unit_quantity(1) [OF P, folded q_def]
  note s = eq_holding_step [OF P k hl hu, folded q_def, folded h'_def]
  note t = eq_value_step [OF P K s(2,3), folded x_def, folded v_def]
  have r: "replicate n P ! k = P" using kn by simp
  have "f64_eq_loop (replicate n P) (replicate n P) (Suc k) = Some (h', h', vs @ [v])"
    by (simp add: l r half_budget q s(1) t(1,2))
  moreover have "length (vs @ [v]) = Suc k" using len by simp
  moreover have "\<bar>last (vs @ [v]) - 500 * real (Suc k)\<bar>
                   \<le> 500 * real (Suc k) * (real (Suc k) + 3) / 2 ^ 52"
    using t(3) by simp
  ultimately show ?case using s(2,3) by blast
qed

text \<open>
  C7, amended: when both prices are the same constant \<open>P\<close>, between \<open>2^-500\<close> and
  \<open>2^500\<close>, in all \<open>n\<close> rows, \<open>0 < n \<le> 2^20\<close>, no operation of the equal-weight
  strategy leaves the finite floats, and its last value equals
  \<open>total_invested = monthly_budget * n\<close> up to rounding: the difference is at most
  \<open>total_invested * (n + 3) / 2^52\<close>.
\<close>

theorem f64_equal_weight_constant_prices:
  assumes "1 / 2 ^ 500 \<le> P" "P \<le> 2 ^ 500" "0 < n" "n \<le> 2 ^ 20"
  shows "\<exists>vs. f64_eq_values (replicate n (P, P)) = Some vs \<and> length vs = n
           \<and> \<bar>last vs - total_invested n\<bar> \<le> total_invested n * (real n + 3) / 2 ^ 52"
proof -
  from eq_loop_invariant [OF assms(1,2) order_refl assms(4)] assms(3)
  obtain h vs where "f64_eq_loop (replicate n P) (replicate n P) n = Some (h, h, vs)"
    "length vs = n" "\<bar>last vs - 500 * real n\<bar> \<le> 500 * real n * (real n + 3) / 2 ^ 52"
    by blast
  then show ?thesis
    by (simp add: f64_eq_values_def total_invested_def monthly_budget_def)
qed

theorem f64_equal_weight_constant_prices_witness:
  "1 / 2 ^ 500 \<le> (3 :: real) \<and> (3 :: real) \<le> 2 ^ 500 \<and> (0 :: nat) < 12 \<and> (12 :: nat) \<le> 2 ^ 20
   \<and> map_option last (f64_eq_values (replicate 12 (3, 3))) = Some (6000 + 1 / 2 ^ 40)
   \<and> total_invested 12 * (real 12 + 3) / 2 ^ 52 = 5625 / 2 ^ 48
   \<and> (\<exists>vs. f64_eq_values (replicate 12 (3, 3)) = Some vs \<and> length vs = 12
         \<and> \<bar>last vs - total_invested 12\<bar> \<le> total_invested 12 * (real 12 + 3) / 2 ^ 52)"
proof -
  have rep: "replicate 12 (3 :: real, 3 :: real) = [(3, 3), (3, 3), (3, 3), (3, 3), (3, 3), (3, 3), (3, 3), (3, 3), (3, 3), (3, 3), (3, 3), (3, 3)]"
    by (simp add: numeral_eq_Suc)
  let ?df = "[(3, 3), (3, 3), (3, 3), (3, 3), (3, 3), (3, 3), (3, 3), (3, 3), (3, 3), (3, 3), (3, 3), (3, 3)] :: (real \<times> real) list"
  have l: "length ?df = 12" by simp
  have m: "map fst ?df = [3, 3, 3, 3, 3, 3, 3, 3, 3, 3, 3, 3]" "map snd ?df = [3, 3, 3, 3, 3, 3, 3, 3, 3, 3, 3, 3]"
    by simp_all
  have "map_option last (f64_eq_values ?df) = Some (6000 + 1 / 2 ^ 40)"
    unfolding f64_eq_values_def l m eq_loop_at_3_12 by simp
  then have v: "map_option last (f64_eq_values (replicate 12 (3, 3))) = Some (6000 + 1 / 2 ^ 40)"
    by (simp only: rep)
  have t: "total_invested 12 * (real 12 + 3) / 2 ^ 52 = 5625 / 2 ^ 48"
    by (simp add: total_invested_def monthly_budget_def)
  have b: "1 / 2 ^ 500 \<le> (3 :: real)" "(3 :: real) \<le> 2 ^ 500" "(0 :: nat) < 12" "(12 :: nat) \<le> 2 ^ 20"
    by simp_all
  from f64_equal_weight_constant_prices [OF b] v t b show ?thesis by blast
qed

end
